theory Spec2Isabelle
  imports Main "HOL-Library.Multiset"
begin

section \<open>The node store\<close>

text \<open>
  A bookmark record as script.js builds it (saveBookmarkItem, addDefaultBookmarks,
  parseChromeBookmarks). The properties id, name, type and parent are strings on every
  record; url, accessTime and order may be missing (undefined), which is None here.
  The store is the global array bookmarks.
\<close>

record node =
  nid :: string
  name :: string
  ntype :: string
  parent :: string
  url :: "string option"
  accessTime :: "int option"
  order :: "int option"

type_synonym store = "node list"

text \<open>Array.prototype.find: the first element satisfying the predicate, or undefined.\<close>

fun find_first :: "('a \<Rightarrow> bool) \<Rightarrow> 'a list \<Rightarrow> 'a option" where
  "find_first p [] = None"
| "find_first p (x # xs) = (if p x then Some x else find_first p xs)"

lemma find_first_Some: "find_first p xs = Some x \<Longrightarrow> x \<in> set xs \<and> p x"
  by (induction xs) (auto split: if_splits)

lemma find_first_None: "find_first p xs = None \<longleftrightarrow> (\<forall>x \<in> set xs. \<not> p x)"
  by (induction xs) auto

text \<open>
  isDescendant(itemId, ancestorId): walk the parent chain of itemId upwards. The recursion
  of the source has no bound, so the result is an option: None is a call that never returns.
\<close>

partial_function (option) isDescendant :: "store \<Rightarrow> string \<Rightarrow> string \<Rightarrow> bool option" where
  "isDescendant bookmarks itemId ancestorId =
     (case find_first (\<lambda>b. nid b = itemId) bookmarks of
        None \<Rightarrow> Some False
      | Some item \<Rightarrow>
          if parent item = [] then Some False
          else if parent item = ancestorId then Some True
          else isDescendant bookmarks (parent item) ancestorId)"

text \<open>Array.prototype.findIndex: the index of the first match; None stands for -1.\<close>

fun findIndex :: "('a \<Rightarrow> bool) \<Rightarrow> 'a list \<Rightarrow> nat option" where
  "findIndex p [] = None"
| "findIndex p (x # xs) = (if p x then Some 0 else map_option Suc (findIndex p xs))"

subsection \<open>Sorting with a comparison function\<close>

text \<open>
  Array.prototype.sort(compareFn) is stable and, for a consistent comparison function,
  returns the one stable arrangement in which compareFn(a, b) \<le> 0 for every a placed
  before b. The model is the stable insertion sort; only the sign of the comparison result
  is used, as in the source.
\<close>

fun insertBy :: "('a \<Rightarrow> 'a \<Rightarrow> int) \<Rightarrow> 'a \<Rightarrow> 'a list \<Rightarrow> 'a list" where
  "insertBy cmp x [] = [x]"
| "insertBy cmp x (y # ys) = (if cmp x y \<le> 0 then x # y # ys else y # insertBy cmp x ys)"

definition sortBy :: "('a \<Rightarrow> 'a \<Rightarrow> int) \<Rightarrow> 'a list \<Rightarrow> 'a list" where
  "sortBy cmp xs = foldr (insertBy cmp) xs []"

subsection \<open>Children of a parent, in presentation order\<close>

text \<open>
  The objects of the array bookmarks are mutated in place by the source (reorderBookmark,
  the drop handlers), so a reference to one of them is its index in the array.
  The comparison function of getItemsByParent, on two such references: a missing order
  counts as Infinity, so a node that has an order sorts before one that has none
  (the differences with Infinity are written as -1 and 1), and equal orders fall back to
  bookmarks.indexOf(a) - bookmarks.indexOf(b).
\<close>

definition compareOrder :: "store \<Rightarrow> nat \<Rightarrow> nat \<Rightarrow> int" where
  "compareOrder bookmarks a b =
     (case (order (bookmarks ! a), order (bookmarks ! b)) of
        (Some aOrder, Some bOrder) \<Rightarrow>
          if aOrder \<noteq> bOrder then aOrder - bOrder else int a - int b
      | (Some aOrder, None) \<Rightarrow> - 1
      | (None, Some bOrder) \<Rightarrow> 1
      | (None, None) \<Rightarrow> int a - int b)"

text \<open>getItemsByParent(parentId), as references into bookmarks and as the records themselves.\<close>

definition getItemsByParentIdx :: "store \<Rightarrow> string \<Rightarrow> nat list" where
  "getItemsByParentIdx bookmarks parentId =
     sortBy (compareOrder bookmarks)
       (filter (\<lambda>i. parent (bookmarks ! i) = parentId) [0..<length bookmarks])"

definition getItemsByParent :: "store \<Rightarrow> string \<Rightarrow> node list" where
  "getItemsByParent bookmarks parentId =
     map ((!) bookmarks) (getItemsByParentIdx bookmarks parentId)"

subsection \<open>Reordering and moving by drag and drop\<close>

text \<open>
  siblings.forEach((sibling, index) => { sibling.order = index }): the records that the
  references name are updated in the array, counting from start.
\<close>

definition setOrders :: "nat \<Rightarrow> nat list \<Rightarrow> store \<Rightarrow> store" where
  "setOrders start siblings bookmarks =
     fold (\<lambda>(index, s) bs. bs[s := (bs ! s)\<lparr>order := Some (int index)\<rparr>])
       (enumerate start siblings) bookmarks"

text \<open>
  reorderBookmark(draggedItem, targetItem, parentId). draggedItem is a reference into
  bookmarks (the handler obtains it with bookmarks.find); of targetItem only the id is
  read. A target that is not among the siblings (findIndex gives -1) leaves the store as
  it is.
\<close>

definition reorderBookmark :: "store \<Rightarrow> nat \<Rightarrow> node \<Rightarrow> string \<Rightarrow> store" where
  "reorderBookmark bookmarks draggedItem targetItem parentId =
     (let siblings = getItemsByParentIdx bookmarks parentId;
          siblingsWithoutDragged =
            filter (\<lambda>s. nid (bookmarks ! s) \<noteq> nid (bookmarks ! draggedItem)) siblings
      in case findIndex (\<lambda>s. nid (bookmarks ! s) = nid targetItem) siblingsWithoutDragged of
           None \<Rightarrow> bookmarks
         | Some targetIndex \<Rightarrow>
             let spliced = take targetIndex siblingsWithoutDragged @ [draggedItem]
                             @ drop targetIndex siblingsWithoutDragged;
                 bs = setOrders 0 spliced bookmarks
             in bs[draggedItem := (bs ! draggedItem)\<lparr>parent := parentId\<rparr>])"

text \<open>
  The drop listener that setupDropZone(element, level, item) installs. item is the record
  the element shows (None for the empty-list drop zone), currentParentId is
  getCurrentParentId(level), and draggedId is the id carried by the drag data.
  The outcomes: the handler returns without a change (DropIgnored), refuses the move with
  the alert (DropRejected), or applies it (DropDone). The result is None when the
  ancestry walk does not return.
\<close>

datatype dropOutcome = DropIgnored | DropRejected | DropDone

definition handleDrop ::
  "store \<Rightarrow> node option \<Rightarrow> string \<Rightarrow> string \<Rightarrow> (dropOutcome \<times> store) option" where
  "handleDrop bookmarks item currentParentId draggedId =
     (let parentId = (case item of
                        Some it \<Rightarrow> if parent it \<noteq> [] then parent it else currentParentId
                      | None \<Rightarrow> currentParentId)
      in case findIndex (\<lambda>b. nid b = draggedId) bookmarks of
           None \<Rightarrow> Some (DropIgnored, bookmarks)
         | Some draggedItemObj \<Rightarrow>
             if (case item of Some it \<Rightarrow> nid it = nid (bookmarks ! draggedItemObj) | None \<Rightarrow> False)
             then Some (DropIgnored, bookmarks)
             else
               let newParent = (case item of
                                  Some it \<Rightarrow> if ntype it = ''folder'' then nid it else parentId
                                | None \<Rightarrow> parentId);
                   sameParent = (parent (bookmarks ! draggedItemObj) = newParent)
               in Option.bind
                    (case item of
                       Some it \<Rightarrow>
                         if ntype it = ''folder''
                         then isDescendant bookmarks (nid it) (nid (bookmarks ! draggedItemObj))
                         else Some False
                     | None \<Rightarrow> Some False)
                    (\<lambda>descendant.
                       if descendant then Some (DropRejected, bookmarks)
                       else
                         case item of
                           Some it \<Rightarrow>
                             if sameParent
                             then Some (DropDone, reorderBookmark bookmarks draggedItemObj it newParent)
                             else Some (DropDone, bookmarks[draggedItemObj :=
                                    (bookmarks ! draggedItemObj)\<lparr>parent := newParent, order := None\<rparr>])
                         | None \<Rightarrow>
                             Some (DropDone, bookmarks[draggedItemObj :=
                                    (bookmarks ! draggedItemObj)\<lparr>parent := newParent, order := None\<rparr>])))"

subsection \<open>Cascading delete\<close>

text \<open>
  children.forEach(child => ...) over a loop body that may not return: the bodies run in
  order on the store that the previous one left, and the loop returns only if each does.
\<close>

fun forEachM :: "('a \<Rightarrow> 's \<Rightarrow> 's option) \<Rightarrow> 'a list \<Rightarrow> 's \<Rightarrow> 's option" where
  "forEachM f [] s = Some s"
| "forEachM f (x # xs) s = Option.bind (f x s) (forEachM f xs)"

lemma forEachM_mono [partial_function_mono]:
  assumes "\<And>x s. mono_option (\<lambda>g. F g x s)"
  shows "mono_option (\<lambda>g. forEachM (F g) xs s)"
proof (induction xs arbitrary: s)
  case Nil
  show ?case by (simp add: option.const_mono)
next
  case (Cons x xs)
  show ?case by (simp, rule bind_mono [OF assms Cons])
qed

text \<open>
  deleteRecursive(itemId), the inner function of deleteItem: the children are read from the
  current array, each child's subtree is deleted in turn, then every record with the id is
  filtered out of the array.
\<close>

partial_function (option) deleteRecursive :: "store \<Rightarrow> string \<Rightarrow> store option" where
  "deleteRecursive bookmarks itemId =
     Option.bind
       (forEachM (\<lambda>child bs. deleteRecursive bs (nid child))
          (getItemsByParent bookmarks itemId) bookmarks)
       (\<lambda>bs. Some (filter (\<lambda>b. nid b \<noteq> itemId) bs))"

text \<open>
  deleteItem(id, skipConfirm): unless the caller has confirmed already, the user is asked;
  confirmAnswer is the answer of the dialog. A declined dialog leaves the store as it is.
\<close>

definition deleteItem :: "store \<Rightarrow> string \<Rightarrow> bool \<Rightarrow> bool \<Rightarrow> store option" where
  "deleteItem bookmarks itemId skipConfirm confirmAnswer =
     (if \<not> skipConfirm \<and> \<not> confirmAnswer then Some bookmarks
      else deleteRecursive bookmarks itemId)"

subsection \<open>Search\<close>

text \<open>
  String.prototype.toLowerCase. A string is a list of 8-bit characters, read as the code
  units U+0000 to U+00FF (Latin-1). Among these toLowerCase changes the letters A to Z and
  the letters U+00C0 to U+00DE (all but the multiplication sign U+00D7), each to its
  lower-case letter, and leaves every other code unit as it is.
\<close>

definition upperCaseLetters :: string where
  "upperCaseLetters = ''ABCDEFGHIJKLMNOPQRSTUVWXYZ''
     @ [CHR 0xC0, CHR 0xC1, CHR 0xC2, CHR 0xC3, CHR 0xC4, CHR 0xC5, CHR 0xC6, CHR 0xC7,
        CHR 0xC8, CHR 0xC9, CHR 0xCA, CHR 0xCB, CHR 0xCC, CHR 0xCD, CHR 0xCE, CHR 0xCF,
        CHR 0xD0, CHR 0xD1, CHR 0xD2, CHR 0xD3, CHR 0xD4, CHR 0xD5, CHR 0xD6,
        CHR 0xD8, CHR 0xD9, CHR 0xDA, CHR 0xDB, CHR 0xDC, CHR 0xDD, CHR 0xDE]"

definition lowerCaseLetters :: string where
  "lowerCaseLetters = ''abcdefghijklmnopqrstuvwxyz''
     @ [CHR 0xE0, CHR 0xE1, CHR 0xE2, CHR 0xE3, CHR 0xE4, CHR 0xE5, CHR 0xE6, CHR 0xE7,
        CHR 0xE8, CHR 0xE9, CHR 0xEA, CHR 0xEB, CHR 0xEC, CHR 0xED, CHR 0xEE, CHR 0xEF,
        CHR 0xF0, CHR 0xF1, CHR 0xF2, CHR 0xF3, CHR 0xF4, CHR 0xF5, CHR 0xF6,
        CHR 0xF8, CHR 0xF9, CHR 0xFA, CHR 0xFB, CHR 0xFC, CHR 0xFD, CHR 0xFE]"

definition toLowerChar :: "char \<Rightarrow> char" where
  "toLowerChar c =
     (case map_of (zip upperCaseLetters lowerCaseLetters) c of
        Some l \<Rightarrow> l
      | None \<Rightarrow> c)"

definition toLowerCase :: "string \<Rightarrow> string" where
  "toLowerCase s = map toLowerChar s"

text \<open>String.prototype.startsWith and String.prototype.includes.\<close>

fun startsWith :: "string \<Rightarrow> string \<Rightarrow> bool" where
  "startsWith s [] = True"
| "startsWith [] (c # cs) = False"
| "startsWith (x # xs) (c # cs) = (x = c \<and> startsWith xs cs)"

fun includesStr :: "string \<Rightarrow> string \<Rightarrow> bool" where
  "includesStr [] t = (t = [])"
| "includesStr (x # xs) t = (startsWith (x # xs) t \<or> includesStr xs t)"

text \<open>a.accessTime || 0: a missing access time counts as 0.\<close>

definition timeOf :: "node \<Rightarrow> int" where
  "timeOf a = (case accessTime a of None \<Rightarrow> 0 | Some t \<Rightarrow> t)"

text \<open>
  The comparison function of searchBookmarks. String.prototype.localeCompare belongs to
  the platform and depends on its locale, so it is a parameter.
\<close>

definition compareSearch :: "(string \<Rightarrow> string \<Rightarrow> int) \<Rightarrow> node \<Rightarrow> node \<Rightarrow> int" where
  "compareSearch localeCompare a b =
     (let aTime = timeOf a; bTime = timeOf b
      in if bTime \<noteq> aTime then bTime - aTime else localeCompare (name a) (name b))"

definition searchBookmarks :: "(string \<Rightarrow> string \<Rightarrow> int) \<Rightarrow> store \<Rightarrow> string \<Rightarrow> node list" where
  "searchBookmarks localeCompare bookmarks query =
     (if query = [] then []
      else
        let lowerQuery = toLowerCase query;
            results = filter (\<lambda>item. includesStr (toLowerCase (name item)) lowerQuery) bookmarks
        in sortBy (compareSearch localeCompare) results)"

subsection \<open>The navigation cursor\<close>

text \<open>
  currentPath is a sequence of folder entries, of which only id and name are ever read.
  restoreNavigationState reads the stored state: nothing stored (or no array in it) leaves
  currentPath as it is, a state that cannot be parsed resets it (the catch branch), and a
  stored path is mapped entry by entry to the live folder with that id, the entries without
  one being filtered out.
\<close>

type_synonym pathEntry = "string \<times> string"

datatype storedState = NoState | BadState | StatePath "pathEntry list"

definition restoreNavigationState :: "store \<Rightarrow> storedState \<Rightarrow> pathEntry list \<Rightarrow> pathEntry list" where
  "restoreNavigationState bookmarks stored currentPath =
     (case stored of
        NoState \<Rightarrow> currentPath
      | BadState \<Rightarrow> []
      | StatePath path \<Rightarrow>
          List.map_filter
            (\<lambda>folderData.
               case find_first (\<lambda>b. nid b = fst folderData \<and> ntype b = ''folder'') bookmarks of
                 Some folder \<Rightarrow>
                   Some (nid folder, if name folder \<noteq> [] then name folder else snd folderData)
               | None \<Rightarrow> None)
            path)"

definition MAX_LEVELS :: int where
  "MAX_LEVELS = 10"

text \<open>Array.prototype.slice(0, end): a negative end counts from the end of the array.\<close>

definition slice0 :: "'a list \<Rightarrow> int \<Rightarrow> 'a list" where
  "slice0 xs e = take (nat (if e < 0 then max (int (length xs) + e) 0 else e)) xs"

text \<open>
  navigateToFolder(folder, currentLevel). The panes are elements of the page, which is not
  part of script.js, so whether pane n exists is a parameter. The two alerts are the
  outcomes DepthExceeded and NoPane.
\<close>

datatype navOutcome = DepthExceeded | NoPane | Navigated

definition navigateToFolder ::
  "(int \<Rightarrow> bool) \<Rightarrow> node \<Rightarrow> int \<Rightarrow> pathEntry list \<Rightarrow> navOutcome \<times> pathEntry list" where
  "navigateToFolder paneExists folder currentLevel currentPath =
     (if currentLevel \<ge> MAX_LEVELS then (DepthExceeded, currentPath)
      else
        let currentPath' = slice0 currentPath (currentLevel - 1) @ [(nid folder, name folder)];
            nextLevel = currentLevel + 1
        in if \<not> paneExists nextLevel then (NoPane, currentPath')
           else (Navigated, currentPath'))"

subsection \<open>Importing third-party bookmark markup\<close>

text \<open>
  parseChromeBookmarks works on the document that the platform's DOMParser builds from the
  text. The document is a tree of nodes: elements (tag name in upper case, attributes with
  lower-case names, child nodes), text nodes and comments.
\<close>

datatype dom = Element string "(string \<times> string) list" "dom list" | Text string | Comment string

fun isElement :: "dom \<Rightarrow> bool" where
  "isElement (Element t a cs) = True"
| "isElement d = False"

fun tagName :: "dom \<Rightarrow> string" where
  "tagName (Element t a cs) = t"
| "tagName d = []"

fun attributes :: "dom \<Rightarrow> (string \<times> string) list" where
  "attributes (Element t a cs) = a"
| "attributes d = []"

fun childNodes :: "dom \<Rightarrow> dom list" where
  "childNodes (Element t a cs) = cs"
| "childNodes d = []"

text \<open>Node.textContent of an element: the text of its descendants, comments left out.\<close>

fun textContent :: "dom \<Rightarrow> string" where
  "textContent (Element t a cs) = concat (map textContent cs)"
| "textContent (Text s) = s"
| "textContent (Comment s) = []"

text \<open>
  String.prototype.trim. Of the code units below 256, the white space and line terminators
  of the language are U+0009 to U+000D, U+0020 and the no-break space U+00A0.
\<close>

definition isSpace :: "char \<Rightarrow> bool" where
  "isSpace c = (c \<in> set [CHR '' '', CHR 0x09, CHR 0x0A, CHR 0x0B, CHR 0x0C, CHR 0x0D, CHR 0xA0])"

definition trim :: "string \<Rightarrow> string" where
  "trim s = rev (dropWhile isSpace (rev (dropWhile isSpace s)))"

text \<open>
  Element.getAttribute in an HTML document converts the name it is given to ASCII lower
  case (the letters A to Z only); firstElementChild and the chain of nextElementSibling
  from it skip the nodes that are not elements.
\<close>

definition asciiLowerChar :: "char \<Rightarrow> char" where
  "asciiLowerChar c =
     (case map_of (zip ''ABCDEFGHIJKLMNOPQRSTUVWXYZ'' ''abcdefghijklmnopqrstuvwxyz'') c of
        Some l \<Rightarrow> l
      | None \<Rightarrow> c)"

definition asciiLowerCase :: "string \<Rightarrow> string" where
  "asciiLowerCase s = map asciiLowerChar s"

definition getAttribute :: "dom \<Rightarrow> string \<Rightarrow> string option" where
  "getAttribute el n = map_of (attributes el) (asciiLowerCase n)"

definition firstElementChild :: "dom \<Rightarrow> dom option" where
  "firstElementChild node = find_first isElement (childNodes node)"

definition nextElementSiblings :: "dom \<Rightarrow> dom list" where
  "nextElementSiblings node =
     (case dropWhile (\<lambda>d. \<not> isElement d) (childNodes node) of
        [] \<Rightarrow> []
      | first # rest \<Rightarrow> filter isElement rest)"

text \<open>
  querySelector('DL') over a sequence of sibling subtrees: the first element with the tag,
  in document order.
\<close>

fun querySelectorIn :: "string \<Rightarrow> dom list \<Rightarrow> dom option" where
  "querySelectorIn tag [] = None"
| "querySelectorIn tag (Element t a cs # ds) =
     (if t = tag then Some (Element t a cs)
      else case querySelectorIn tag cs of
             Some r \<Rightarrow> Some r
           | None \<Rightarrow> querySelectorIn tag ds)"
| "querySelectorIn tag (d # ds) = querySelectorIn tag ds"

text \<open>
  The nested DL of a DT whose first element is the H3: the first DL among the later
  element siblings of the H3, or else the first DL anywhere below the DT.
\<close>

definition findNestedDL :: "dom \<Rightarrow> dom option" where
  "findNestedDL node =
     (case find_first (\<lambda>e. tagName e = ''DL'') (nextElementSiblings node) of
        Some nestedDL \<Rightarrow> Some nestedDL
      | None \<Rightarrow> querySelectorIn ''DL'' (childNodes node))"

text \<open>
  What a function of script.js can throw here: a ReferenceError for an identifier that is
  bound nowhere, and an Error with a message (ImportFailure).
\<close>

datatype jsError = ReferenceError string | ImportFailure string

type_synonym parseState = "node list \<times> nat"

lemma querySelectorIn_size: "querySelectorIn tag ds = Some d \<Longrightarrow> size d < size_list size ds"
  by (induction tag ds rule: querySelectorIn.induct) (auto split: if_splits option.splits)

lemma size_member: "d \<in> set ds \<Longrightarrow> size d < size_list size ds"
  by (induction ds) auto

lemma childNodes_size: "size_list size (childNodes d) \<le> size d"
  by (cases d) auto

lemma nextElementSiblings_subset: "set (nextElementSiblings node) \<subseteq> set (childNodes node)"
proof (cases "dropWhile (\<lambda>d. \<not> isElement d) (childNodes node)")
  case Nil
  then have "nextElementSiblings node = []" unfolding nextElementSiblings_def by (simp only: list.case)
  then show ?thesis by simp
next
  case (Cons first rest)
  have "set rest \<subseteq> set (dropWhile (\<lambda>d. \<not> isElement d) (childNodes node))"
    unfolding Cons by auto
  also have "\<dots> \<subseteq> set (childNodes node)" by (auto dest: set_dropWhileD)
  finally have "set rest \<subseteq> set (childNodes node)" .
  moreover have "nextElementSiblings node = filter isElement rest"
    unfolding nextElementSiblings_def Cons by simp
  ultimately show ?thesis by auto
qed

lemma findNestedDL_size: "findNestedDL node = Some d \<Longrightarrow> size d < size node"
proof -
  assume a: "findNestedDL node = Some d"
  show ?thesis
  proof (cases "find_first (\<lambda>e. tagName e = ''DL'') (nextElementSiblings node)")
    case None
    with a have "querySelectorIn ''DL'' (childNodes node) = Some d" by (simp add: findNestedDL_def)
    then show ?thesis using querySelectorIn_size childNodes_size [of node] by fastforce
  next
    case (Some e)
    with a have "e = d" by (simp add: findNestedDL_def)
    with Some have "d \<in> set (nextElementSiblings node)" using find_first_Some by fastforce
    then have "d \<in> set (childNodes node)"
      using nextElementSiblings_subset by blast
    then have "size d < size_list size (childNodes node)" by (rule size_member)
    then show ?thesis using childNodes_size [of node] by simp
  qed
qed

text \<open>
  processDL(dlElement, parentId) and its loop over dlElement.childNodes. The state is the
  array result and the counter idCounter; generateId (which also reads the clock and a
  random number) is the function from the counter to the id it returns.
  In the branch of a link with a url and a name, the source evaluates
  currentFolderId || parentId || ''. The identifier currentFolderId is declared nowhere in
  script.js (the only other occurrences are the property pane.dataset.currentFolderId), so
  evaluating it throws a ReferenceError.
  parseChromeBookmarks starts at doc.querySelector('DL'); its alternative
  doc.querySelector('body > DL') can only find an element when the first query finds one.
\<close>

function processDL :: "(nat \<Rightarrow> string) \<Rightarrow> dom \<Rightarrow> string \<Rightarrow> parseState \<Rightarrow> jsError + parseState"
  and processNodes :: "(nat \<Rightarrow> string) \<Rightarrow> dom list \<Rightarrow> string \<Rightarrow> parseState \<Rightarrow> jsError + parseState"
where
  "processDL generateId dlElement parentId st =
     processNodes generateId (childNodes dlElement) parentId st"
| "processNodes generateId [] parentId st = Inr st"
| "processNodes generateId (node # rest) parentId st =
     (if \<not> isElement node then processNodes generateId rest parentId st
      else if tagName node = ''DT'' then
        (case firstElementChild node of
           None \<Rightarrow> processNodes generateId rest parentId st
         | Some firstChild \<Rightarrow>
             if tagName firstChild = ''H3'' then
               (let folderName = trim (textContent firstChild)
                in if folderName \<noteq> [] then
                     (let folderId = generateId (snd st);
                          folder = \<lparr>nid = folderId, name = folderName, ntype = ''folder'',
                                     parent = parentId, url = None, accessTime = None, order = None\<rparr>;
                          st1 = (fst st @ [folder], snd st + 1)
                      in case findNestedDL node of
                           Some nestedDL \<Rightarrow>
                             (case processDL generateId nestedDL folderId st1 of
                                Inl e \<Rightarrow> Inl e
                              | Inr st2 \<Rightarrow> processNodes generateId rest parentId st2)
                         | None \<Rightarrow> processNodes generateId rest parentId st1)
                   else processNodes generateId rest parentId st)
             else if tagName firstChild = ''A'' then
               (let url = getAttribute firstChild ''HREF'';
                    name = trim (textContent firstChild)
                in if url \<noteq> None \<and> url \<noteq> Some [] \<and> name \<noteq> []
                   then Inl (ReferenceError ''currentFolderId'')
                   else processNodes generateId rest parentId st)
             else processNodes generateId rest parentId st)
      else processNodes generateId rest parentId st)"
  by pat_completeness auto
termination
  by (relation "measure (\<lambda>x. case x of
          Inl (g, dl, p, st) \<Rightarrow> Suc (size dl)
        | Inr (g, nodes, p, st) \<Rightarrow> size_list size nodes)")
     (auto simp: less_Suc_eq_le childNodes_size dest: findNestedDL_size)

definition parseChromeBookmarks :: "(nat \<Rightarrow> string) \<Rightarrow> dom \<Rightarrow> jsError + node list" where
  "parseChromeBookmarks generateId doc =
     (case querySelectorIn ''DL'' [doc] of
        Some mainDL \<Rightarrow>
          (case processDL generateId mainDL [] ([], 1) of
             Inl e \<Rightarrow> Inl e
           | Inr st \<Rightarrow> Inr (fst st))
      | None \<Rightarrow> Inr [])"

subsection \<open>Export and import in the native format\<close>

text \<open>
  exportBookmarks writes JSON.stringify(bookmarks, null, 2) to the file bookmarks.json, and
  handleFileImport reads a file back with JSON.parse. Both functions belong to the
  platform; they are modelled on the values a store holds: an array of objects whose
  property values are strings and integers. A property whose value is undefined is left
  out by JSON.stringify; the properties are written in the order in which saveBookmarkItem
  creates them.
\<close>

datatype jvalue = JString string | JNumber int

text \<open>
  QuoteJSONString: the seven short escapes, \u00XX for the other control characters, and
  every other character as it is.
\<close>

definition hexDigit :: "nat \<Rightarrow> char" where
  "hexDigit n = ''0123456789abcdef'' ! n"

definition quoteChar :: "char \<Rightarrow> string" where
  "quoteChar c =
     (if c = CHR 0x08 then [CHR 0x5C, CHR ''b'']
      else if c = CHR 0x09 then [CHR 0x5C, CHR ''t'']
      else if c = CHR 0x0A then [CHR 0x5C, CHR ''n'']
      else if c = CHR 0x0C then [CHR 0x5C, CHR ''f'']
      else if c = CHR 0x0D then [CHR 0x5C, CHR ''r'']
      else if c = CHR 0x22 then [CHR 0x5C, CHR 0x22]
      else if c = CHR 0x5C then [CHR 0x5C, CHR 0x5C]
      else if (of_char c :: nat) < 32
        then [CHR 0x5C, CHR ''u'', CHR ''0'', CHR ''0'',
              hexDigit ((of_char c :: nat) div 16), hexDigit ((of_char c :: nat) mod 16)]
      else [c])"

definition quoteJSONString :: "string \<Rightarrow> string" where
  "quoteJSONString s = [CHR 0x22] @ concat (map quoteChar s) @ [CHR 0x22]"

text \<open>
  The decimal digits of a natural number, and the text JSON.stringify writes for an integer
  (orders and access times are integers well inside the range in which the platform
  prints every digit).
\<close>

function digitsOf :: "nat \<Rightarrow> string" where
  "digitsOf n = (if n < 10 then [hexDigit n] else digitsOf (n div 10) @ [hexDigit (n mod 10)])"
  by pat_completeness auto
termination
  by (relation "measure id") auto

declare digitsOf.simps [simp del]

definition numberToString :: "int \<Rightarrow> string" where
  "numberToString i = (if i < 0 then CHR ''-'' # digitsOf (nat (- i)) else digitsOf (nat i))"

fun renderValue :: "jvalue \<Rightarrow> string" where
  "renderValue (JString s) = quoteJSONString s"
| "renderValue (JNumber i) = numberToString i"

definition membersOf :: "node \<Rightarrow> (string \<times> jvalue) list" where
  "membersOf b =
     [(''id'', JString (nid b)), (''name'', JString (name b)),
      (''type'', JString (ntype b)), (''parent'', JString (parent b))]
     @ (case url b of None \<Rightarrow> [] | Some u \<Rightarrow> [(''url'', JString u)])
     @ (case accessTime b of None \<Rightarrow> [] | Some t \<Rightarrow> [(''accessTime'', JNumber t)])
     @ (case order b of None \<Rightarrow> [] | Some k \<Rightarrow> [(''order'', JNumber k)])"

text \<open>
  With the indentation of two spaces, the properties of an object stand on lines of their
  own, indented by four spaces, and the objects of the array are indented by two.
\<close>

definition renderMember :: "string \<times> jvalue \<Rightarrow> string" where
  "renderMember m = ''    '' @ quoteJSONString (fst m) @ '': '' @ renderValue (snd m)"

fun renderMembers :: "(string \<times> jvalue) list \<Rightarrow> string" where
  "renderMembers [] = []"
| "renderMembers [m] = renderMember m"
| "renderMembers (m # ms) = renderMember m @ [CHR '','', CHR 0x0A] @ renderMembers ms"

definition renderObject :: "node \<Rightarrow> string" where
  "renderObject b = [CHR ''{'', CHR 0x0A] @ renderMembers (membersOf b) @ [CHR 0x0A] @ ''  }''"

fun renderElements :: "store \<Rightarrow> string" where
  "renderElements [] = []"
| "renderElements [b] = ''  '' @ renderObject b"
| "renderElements (b # bs) = ''  '' @ renderObject b @ [CHR '','', CHR 0x0A] @ renderElements bs"

definition JSON_stringify :: "store \<Rightarrow> string" where
  "JSON_stringify bookmarks =
     (if bookmarks = [] then ''[]''
      else [CHR ''['', CHR 0x0A] @ renderElements bookmarks @ [CHR 0x0A, CHR '']''])"

text \<open>exportBookmarks: the text of the downloaded file.\<close>

definition exportBookmarks :: "store \<Rightarrow> string" where
  "exportBookmarks bookmarks = JSON_stringify bookmarks"

text \<open>
  JSON.parse, for the texts that denote an array of objects with string and integer
  property values: white space is skipped between tokens, strings are unescaped, a
  repeated property name keeps its last value. A text that is not JSON, that is not such
  an array, or whose objects lack one of id, name, type and parent, is None: the source
  then reports an import error (a SyntaxError, or its own 'Invalid bookmark file format')
  or holds records that the node type cannot describe.
\<close>

definition isWs :: "char \<Rightarrow> bool" where
  "isWs c = (c = CHR '' '' \<or> c = CHR 0x09 \<or> c = CHR 0x0A \<or> c = CHR 0x0D)"

definition skipWs :: "string \<Rightarrow> string" where
  "skipWs s = dropWhile isWs s"

definition hexValue :: "char \<Rightarrow> nat option" where
  "hexValue c = map_of (zip ''0123456789abcdefABCDEF''
                   [0, 1, 2, 3, 4, 5, 6, 7, 8, 9, 10, 11, 12, 13, 14, 15, 10, 11, 12, 13, 14, 15]) c"

definition unescape :: "char \<Rightarrow> char option" where
  "unescape e = map_of [(CHR 0x22, CHR 0x22), (CHR 0x5C, CHR 0x5C), (CHR ''/'', CHR ''/''),
                        (CHR ''b'', CHR 0x08), (CHR ''f'', CHR 0x0C), (CHR ''n'', CHR 0x0A),
                        (CHR ''r'', CHR 0x0D), (CHR ''t'', CHR 0x09)] e"

definition hex4 :: "char \<Rightarrow> char \<Rightarrow> char \<Rightarrow> char \<Rightarrow> char option" where
  "hex4 h1 h2 h3 h4 =
     (case (hexValue h1, hexValue h2, hexValue h3, hexValue h4) of
        (Some a, Some b, Some c, Some d) \<Rightarrow>
          (let v = ((a * 16 + b) * 16 + c) * 16 + d in if v < 256 then Some (char_of v) else None)
      | _ \<Rightarrow> None)"

definition consChar :: "char \<Rightarrow> (string \<times> string) option \<Rightarrow> (string \<times> string) option" where
  "consChar c r = map_option (\<lambda>(s, rest). (c # s, rest)) r"

fun parseChars :: "string \<Rightarrow> (string \<times> string) option" where
  "parseChars [] = None"
| "parseChars (c # cs) =
     (if c = CHR 0x22 then Some ([], cs)
      else if c = CHR 0x5C then
        (case cs of
           [] \<Rightarrow> None
         | e # rest \<Rightarrow>
             if e = CHR ''u'' then
               (case rest of
                  h1 # h2 # h3 # h4 # rest' \<Rightarrow>
                    (case hex4 h1 h2 h3 h4 of
                       Some ch \<Rightarrow> consChar ch (parseChars rest')
                     | None \<Rightarrow> None)
                | _ \<Rightarrow> None)
             else
               (case unescape e of
                  Some ch \<Rightarrow> consChar ch (parseChars rest)
                | None \<Rightarrow> None))
      else if (of_char c :: nat) < 32 then None
      else consChar c (parseChars cs))"

definition isDigit :: "char \<Rightarrow> bool" where
  "isDigit c = (c \<in> set ''0123456789'')"

definition digitValue :: "char \<Rightarrow> nat" where
  "digitValue c = (case hexValue c of Some v \<Rightarrow> v | None \<Rightarrow> 0)"

definition natOfDigits :: "string \<Rightarrow> nat" where
  "natOfDigits ds = foldl (\<lambda>acc d. acc * 10 + digitValue d) 0 ds"

definition parseNumber :: "string \<Rightarrow> (int \<times> string) option" where
  "parseNumber s =
     (let negative = (s \<noteq> [] \<and> hd s = CHR ''-'');
          s1 = (if negative then tl s else s);
          ds = takeWhile isDigit s1;
          rest = dropWhile isDigit s1
      in if ds = [] \<or> (length ds > 1 \<and> hd ds = CHR ''0'')
            \<or> (rest \<noteq> [] \<and> hd rest \<in> set ''.eE'')
         then None
         else Some (if negative then - int (natOfDigits ds) else int (natOfDigits ds), rest))"

definition parseValue :: "string \<Rightarrow> (jvalue \<times> string) option" where
  "parseValue s =
     (case s of
        [] \<Rightarrow> None
      | c # cs \<Rightarrow>
          if c = CHR 0x22 then map_option (\<lambda>(v, rest). (JString v, rest)) (parseChars cs)
          else if c = CHR ''-'' \<or> isDigit c
            then map_option (\<lambda>(v, rest). (JNumber v, rest)) (parseNumber s)
          else None)"

definition parseMember :: "string \<Rightarrow> ((string \<times> jvalue) \<times> string) option" where
  "parseMember s =
     (case s of
        [] \<Rightarrow> None
      | c # cs \<Rightarrow>
          if c \<noteq> CHR 0x22 then None
          else
            (case parseChars cs of
               None \<Rightarrow> None
             | Some (key, r1) \<Rightarrow>
                 (case skipWs r1 of
                    [] \<Rightarrow> None
                  | c2 # r2 \<Rightarrow>
                      if c2 \<noteq> CHR '':'' then None
                      else
                        (case parseValue (skipWs r2) of
                           None \<Rightarrow> None
                         | Some (v, r3) \<Rightarrow> Some ((key, v), skipWs r3)))))"

lemma skipWs_length: "length (skipWs s) \<le> length s"
  by (simp add: skipWs_def length_dropWhile_le)

lemma consChar_Some: "consChar c r = Some (s, rest) \<longleftrightarrow> (\<exists>s'. r = Some (s', rest) \<and> s = c # s')"
  by (cases r) (auto simp: consChar_def)

lemma parseChars_length: "parseChars s = Some (v, r) \<Longrightarrow> length r < length s"
proof (induction s arbitrary: v r rule: parseChars.induct)
  case 1
  then show ?case by simp
next
  case (2 c cs)
  then show ?case
    by (auto simp: consChar_Some split: if_splits list.splits option.splits) fastforce+
qed

lemma parseNumber_length: "parseNumber s = Some (v, r) \<Longrightarrow> length r < length s"
proof -
  assume a: "parseNumber s = Some (v, r)"
  let ?s1 = "if s \<noteq> [] \<and> hd s = CHR ''-'' then tl s else s"
  from a have r: "r = dropWhile isDigit ?s1" and ne: "takeWhile isDigit ?s1 \<noteq> []"
    by (auto simp: parseNumber_def Let_def split: if_splits)
  have "length (takeWhile isDigit ?s1) + length (dropWhile isDigit ?s1) = length ?s1"
    by (metis length_append takeWhile_dropWhile_id)
  with ne r have "length r < length ?s1" by (cases "takeWhile isDigit ?s1") auto
  moreover have "length ?s1 \<le> length s" by simp
  ultimately show ?thesis by simp
qed

lemma parseValue_length: "parseValue s = Some (v, r) \<Longrightarrow> length r < length s"
  by (cases s) (auto simp: parseValue_def split: if_splits dest!: parseChars_length parseNumber_length)

lemma parseMember_length: "parseMember s = Some (m, r) \<Longrightarrow> length r < length s"
proof -
  assume a: "parseMember s = Some (m, r)"
  then obtain cs key r1 r2 v r3 where s: "s = CHR 0x22 # cs"
    and 1: "parseChars cs = Some (key, r1)" and 2: "skipWs r1 = CHR '':'' # r2"
    and 3: "parseValue (skipWs r2) = Some (v, r3)" and 4: "r = skipWs r3"
    by (auto simp: parseMember_def split: list.splits if_splits option.splits)
  have "length r \<le> length r3" using 4 skipWs_length by simp
  also have "length r3 < length (skipWs r2)" using 3 by (rule parseValue_length)
  also have "\<dots> \<le> length r2" by (rule skipWs_length)
  also have "\<dots> < length (skipWs r1)" using 2 by simp
  also have "\<dots> \<le> length r1" by (rule skipWs_length)
  also have "\<dots> < length cs" using 1 by (rule parseChars_length)
  finally show ?thesis using s by simp
qed

function parseMembers :: "string \<Rightarrow> ((string \<times> jvalue) list \<times> string) option" where
  "parseMembers s =
     (case parseMember s of
        None \<Rightarrow> None
      | Some (m, r) \<Rightarrow>
          (case r of
             [] \<Rightarrow> None
           | c # r' \<Rightarrow>
               if c = CHR '','' then
                 (case parseMembers (skipWs r') of
                    None \<Rightarrow> None
                  | Some (ms, r'') \<Rightarrow> Some (m # ms, r''))
               else if c = CHR ''}'' then Some ([m], r')
               else None))"
  by pat_completeness auto
termination
proof (relation "measure length")
  show "wf (measure length)" by simp
next
  fix s x2 m r c r'
  assume "parseMember s = Some x2" "(m, r) = x2" "r = c # r'" "c = CHR '',''"
  then have "length (c # r') < length s" using parseMember_length by metis
  then show "(skipWs r', s) \<in> measure length"
    using skipWs_length [of r'] by simp
qed

declare parseMembers.simps [simp del]

definition parseObject :: "string \<Rightarrow> ((string \<times> jvalue) list \<times> string) option" where
  "parseObject s =
     (case s of
        [] \<Rightarrow> None
      | c # r \<Rightarrow>
          if c \<noteq> CHR ''{'' then None
          else
            (case skipWs r of
               [] \<Rightarrow> None
             | c2 # r2 \<Rightarrow> if c2 = CHR ''}'' then Some ([], r2) else parseMembers (c2 # r2)))"

definition stringField :: "(string \<times> jvalue) list \<Rightarrow> string \<Rightarrow> string option option" where
  "stringField ms k =
     (case map_of (rev ms) k of
        None \<Rightarrow> Some None
      | Some (JString s) \<Rightarrow> Some (Some s)
      | Some (JNumber i) \<Rightarrow> None)"

definition numberField :: "(string \<times> jvalue) list \<Rightarrow> string \<Rightarrow> int option option" where
  "numberField ms k =
     (case map_of (rev ms) k of
        None \<Rightarrow> Some None
      | Some (JNumber i) \<Rightarrow> Some (Some i)
      | Some (JString s) \<Rightarrow> None)"

definition nodeOfMembers :: "(string \<times> jvalue) list \<Rightarrow> node option" where
  "nodeOfMembers ms =
     (case (stringField ms ''id'', stringField ms ''name'', stringField ms ''type'',
            stringField ms ''parent'', stringField ms ''url'',
            numberField ms ''accessTime'', numberField ms ''order'') of
        (Some (Some i), Some (Some n), Some (Some t), Some (Some p), Some u, Some a, Some k) \<Rightarrow>
          Some \<lparr>nid = i, name = n, ntype = t, parent = p, url = u, accessTime = a, order = k\<rparr>
      | _ \<Rightarrow> None)"

lemma parseMembers_length: "parseMembers s = Some (ms, r) \<Longrightarrow> length r < length s"
proof (induction s arbitrary: ms r rule: parseMembers.induct)
  case (1 s)
  from "1.prems" obtain m r0 c r' where pm: "parseMember s = Some (m, r0)" and r0: "r0 = c # r'"
    by (subst (asm) parseMembers.simps) (auto split: option.splits list.splits)
  have l0: "length r0 < length s" using pm by (rule parseMember_length)
  show ?case
  proof (cases "c = CHR '',''")
    case True
    with "1.prems" pm r0 obtain ms' where rec: "parseMembers (skipWs r') = Some (ms', r)"
      by (subst (asm) parseMembers.simps) (auto split: option.splits)
    have "length r < length (skipWs r')"
      by (rule "1.IH" [OF pm refl r0 True rec])
    also have "\<dots> \<le> length r'" by (rule skipWs_length)
    finally show ?thesis using l0 r0 by simp
  next
    case False
    with "1.prems" pm r0 have "r = r'"
      by (subst (asm) parseMembers.simps) (auto split: if_splits)
    then show ?thesis using l0 r0 by simp
  qed
qed

lemma parseObject_length: "parseObject s = Some (ms, r) \<Longrightarrow> length r < length s"
proof -
  assume a: "parseObject s = Some (ms, r)"
  then obtain r0 c2 r2 where s: "s = CHR ''{'' # r0" and sk: "skipWs r0 = c2 # r2"
    by (auto simp: parseObject_def split: list.splits if_splits)
  have le: "length (c2 # r2) \<le> length r0" using skipWs_length [of r0] sk by simp
  show ?thesis
  proof (cases "c2 = CHR ''}''")
    case True
    with a s sk have "r = r2" by (simp add: parseObject_def)
    then show ?thesis using le s by simp
  next
    case False
    with a s sk have "parseMembers (c2 # r2) = Some (ms, r)" by (simp add: parseObject_def)
    then have "length r < length (c2 # r2)" by (rule parseMembers_length)
    then show ?thesis using le s by simp
  qed
qed

function parseElements :: "string \<Rightarrow> (store \<times> string) option" where
  "parseElements s =
     (case parseObject s of
        None \<Rightarrow> None
      | Some (ms, r) \<Rightarrow>
          (case nodeOfMembers ms of
             None \<Rightarrow> None
           | Some b \<Rightarrow>
               (case skipWs r of
                  [] \<Rightarrow> None
                | c # r' \<Rightarrow>
                    if c = CHR '','' then
                      (case parseElements (skipWs r') of
                         None \<Rightarrow> None
                       | Some (bs, r'') \<Rightarrow> Some (b # bs, r''))
                    else if c = CHR '']'' then Some ([b], r')
                    else None)))"
  by pat_completeness auto
termination
proof (relation "measure length")
  show "wf (measure length)" by simp
next
  fix s x2 ms r b c r'
  assume "parseObject s = Some x2" "(ms, r) = x2" "skipWs r = c # r'"
  then have "length r < length s" using parseObject_length by metis
  moreover have "length (c # r') \<le> length r" using skipWs_length [of r] \<open>skipWs r = c # r'\<close> by simp
  ultimately show "(skipWs r', s) \<in> measure length"
    using skipWs_length [of r'] by simp
qed

declare parseElements.simps [simp del]

definition JSON_parse :: "string \<Rightarrow> store option" where
  "JSON_parse text =
     (case skipWs text of
        [] \<Rightarrow> None
      | c # r \<Rightarrow>
          if c \<noteq> CHR ''['' then None
          else
            (case skipWs r of
               [] \<Rightarrow> None
             | c2 # r2 \<Rightarrow>
                 if c2 = CHR '']'' then (if skipWs r2 = [] then Some [] else None)
                 else
                   (case parseElements (c2 # r2) of
                      None \<Rightarrow> None
                    | Some (bs, r3) \<Rightarrow> if skipWs r3 = [] then Some bs else None)))"

text \<open>String.prototype.endsWith.\<close>

definition endsWith :: "string \<Rightarrow> string \<Rightarrow> bool" where
  "endsWith s t = startsWith (rev s) (rev t)"

text \<open>
  handleFileImport, from the text of the chosen file on. domParser is the platform's
  DOMParser and confirmAnswer the answer to 'This will replace all existing bookmarks',
  which is asked only when the store is not empty. Every error thrown while parsing is
  caught and reported, and leaves the store as it is. A text that JSON_parse does not read
  (see there) is taken as such an error.
\<close>

datatype importOutcome = Imported | ImportCancelled | ImportFailed

definition handleFileImport ::
  "(string \<Rightarrow> dom) \<Rightarrow> (nat \<Rightarrow> string) \<Rightarrow> store \<Rightarrow> string \<Rightarrow> string \<Rightarrow> bool
     \<Rightarrow> importOutcome \<times> store" where
  "handleFileImport domParser generateId bookmarks fileName text confirmAnswer =
     (let parsed =
        (if endsWith fileName ''.html'' \<or> startsWith (trim text) ''<!DOCTYPE''
              \<or> includesStr text ''<DT>'' \<or> includesStr text ''<DL>''
         then
           (case parseChromeBookmarks generateId (domParser text) of
              Inl e \<Rightarrow> Inl e
            | Inr importedBookmarks \<Rightarrow>
                if importedBookmarks = []
                then Inl (ImportFailure ''No bookmarks found in HTML file'')
                else Inr importedBookmarks)
         else
           (case JSON_parse text of
              None \<Rightarrow> Inl (ImportFailure ''Invalid bookmark file format'')
            | Some importedBookmarks \<Rightarrow> Inr importedBookmarks))
      in case parsed of
           Inl e \<Rightarrow> (ImportFailed, bookmarks)
         | Inr importedBookmarks \<Rightarrow>
             if bookmarks \<noteq> [] \<and> \<not> confirmAnswer then (ImportCancelled, bookmarks)
             else (Imported, importedBookmarks))"

section \<open>Notions of the specification\<close>

text \<open>The parent-reference graph of a store: an edge from every node's id to its parent field.\<close>

definition parentRel :: "store \<Rightarrow> (string \<times> string) set" where
  "parentRel bookmarks = set (map (\<lambda>b. (nid b, parent b)) bookmarks)"

definition acyclicStore :: "store \<Rightarrow> bool" where
  "acyclicStore bookmarks = acyclic (parentRel bookmarks)"

text \<open>
  addDefaultBookmarks: the store a first start creates. (The source's record of folder 3
  also carries an unused property children, which no function reads.)
\<close>

definition defaultBookmarks :: store where
  "defaultBookmarks =
    [\<lparr>nid = ''1'', name = ''Google'', ntype = ''bookmark'', parent = '''',
       url = Some ''https://www.google.com'', accessTime = Some 0, order = Some 0\<rparr>,
     \<lparr>nid = ''2'', name = ''GitHub'', ntype = ''bookmark'', parent = '''',
       url = Some ''https://www.github.com'', accessTime = Some 0, order = Some 1\<rparr>,
     \<lparr>nid = ''3'', name = ''Development'', ntype = ''folder'', parent = '''',
       url = None, accessTime = None, order = Some 2\<rparr>,
     \<lparr>nid = ''4'', name = ''Stack Overflow'', ntype = ''bookmark'', parent = ''3'',
       url = Some ''https://stackoverflow.com'', accessTime = Some 0, order = Some 0\<rparr>,
     \<lparr>nid = ''5'', name = ''MDN Web Docs'', ntype = ''bookmark'', parent = ''3'',
       url = Some ''https://developer.mozilla.org'', accessTime = Some 0, order = Some 1\<rparr>]"

text \<open>Two folders that are each other's parent: a parent cycle that never reaches the root.\<close>

definition cyclicStore :: store where
  "cyclicStore =
    [\<lparr>nid = ''a'', name = ''A'', ntype = ''folder'', parent = ''b'',
       url = None, accessTime = None, order = Some 0\<rparr>,
     \<lparr>nid = ''b'', name = ''B'', ntype = ''folder'', parent = ''a'',
       url = None, accessTime = None, order = Some 0\<rparr>]"


text \<open>The ids from which the parent graph reaches i: i itself and its transitive descendants.\<close>

definition descendants :: "store \<Rightarrow> string \<Rightarrow> string set" where
  "descendants bs i = {j. (j, i) \<in> (parentRel bs)\<^sup>*}"

text \<open>A set of ids that contains every child of a member.\<close>

definition closedUnder :: "store \<Rightarrow> string set \<Rightarrow> bool" where
  "closedUnder bs D = (\<forall>b \<in> set bs. parent b \<in> D \<longrightarrow> nid b \<in> D)"

abbreviation removeIds :: "string set \<Rightarrow> store \<Rightarrow> store" where
  "removeIds D bs \<equiv> filter (\<lambda>b. nid b \<notin> D) bs"


text \<open>An id resolves to a folder when some node of the store has it and is of type folder.\<close>

definition resolvesToFolder :: "store \<Rightarrow> string \<Rightarrow> bool" where
  "resolvesToFolder bs i = (\<exists>b \<in> set bs. nid b = i \<and> ntype b = ''folder'')"





text \<open>
  Stores for the ranking examples: links that differ in id, name and access time. The link
  GitHub of rankingStore is the most recently visited one and does not match the query
  mail; accentStore holds a name with an upper-case E acute (U+00C9) and the same name
  without the accent.
\<close>

definition mk :: "string \<Rightarrow> string \<Rightarrow> int \<Rightarrow> node" where
  "mk i n t = \<lparr>nid = i, name = n, ntype = ''bookmark'', parent = '''',
       url = Some ''https://x.test'', accessTime = Some t, order = Some 0\<rparr>"


definition alphaStore :: store where
  "alphaStore = [mk ''z'' ''Zeta'' 0, mk ''a'' ''Alpha'' 0]"


text \<open>
  A folder with one link in it, and the same store after the folder has been dropped on
  its own link.
\<close>

definition workStore :: store where
  "workStore =
    [\<lparr>nid = ''w'', name = ''Work'', ntype = ''folder'', parent = '''',
       url = None, accessTime = None, order = Some 0\<rparr>,
     \<lparr>nid = ''m'', name = ''Mail'', ntype = ''bookmark'', parent = ''w'',
       url = Some ''https://mail.test'', accessTime = Some 0, order = Some 0\<rparr>]"

definition workStoreAfterDrop :: store where
  "workStoreAfterDrop =
    [\<lparr>nid = ''w'', name = ''Work'', ntype = ''folder'', parent = ''w'',
       url = None, accessTime = None, order = None\<rparr>,
     \<lparr>nid = ''m'', name = ''Mail'', ntype = ''bookmark'', parent = ''w'',
       url = Some ''https://mail.test'', accessTime = Some 0, order = Some 0\<rparr>]"

text \<open>
  The document that an HTML parser builds from the markup
  <DL><DT><H3>Dev</H3><DL><DT><A HREF="https://x.test">X</A></DL></DL>:
  the nested DL becomes a child of the outer DT, after the H3.
  The second document is the same without the link.
\<close>

definition devDocument :: dom where
  "devDocument =
     Element ''HTML'' []
       [Element ''HEAD'' [] [],
        Element ''BODY'' []
          [Element ''DL'' []
             [Element ''DT'' []
                [Element ''H3'' [] [Text ''Dev''],
                 Element ''DL'' []
                   [Element ''DT'' []
                      [Element ''A'' [(''href'', ''https://x.test'')] [Text ''X'']]]]]]]"

definition devFolderOnly :: dom where
  "devFolderOnly =
     Element ''HTML'' []
       [Element ''HEAD'' [] [],
        Element ''BODY'' []
          [Element ''DL'' []
             [Element ''DT'' []
                [Element ''H3'' [] [Text ''Dev''],
                 Element ''DL'' [] []]]]]"

text \<open>
  A store with one link whose name is the text <DL>, and the document that an HTML parser
  builds from its exported text: the first 34 characters, up to the name, are text of the
  body, the 4 characters of the name open a DL element, and the rest is text inside it.
  dlParser is a DOMParser that returns this document, and fixedId an id generator.
\<close>

definition dlStore :: store where
  "dlStore =
    [\<lparr>nid = ''1'', name = ''<DL>'', ntype = ''bookmark'', parent = '''',
       url = Some ''https://x.test'', accessTime = Some 0, order = Some 0\<rparr>]"

definition dlDocument :: dom where
  "dlDocument =
     Element ''HTML'' []
       [Element ''HEAD'' [] [],
        Element ''BODY'' []
          [Text (take 34 (exportBookmarks dlStore)),
           Element ''DL'' [] [Text (drop 38 (exportBookmarks dlStore))]]]"

definition dlParser :: "string \<Rightarrow> dom" where
  "dlParser text = dlDocument"

definition fixedId :: "nat \<Rightarrow> string" where
  "fixedId n = ''new-'' @ digitsOf n"

text \<open>The text of one property without its indentation, and a parse state with folders only.\<close>

definition memberBody :: "string \<times> jvalue \<Rightarrow> string" where
  "memberBody m = quoteJSONString (fst m) @ '': '' @ renderValue (snd m)"

definition onlyFolders :: "parseState \<Rightarrow> bool" where
  "onlyFolders st = (\<forall>b \<in> set (fst st). ntype b = ''folder'')"

section \<open>Facts about the parent graph\<close>

lemma finite_parentRel: "finite (parentRel bs)"
  by (simp add: parentRel_def)

lemma parentRel_iff: "(i, p) \<in> parentRel bs \<longleftrightarrow> (\<exists>b \<in> set bs. nid b = i \<and> parent b = p)"
  by (auto simp: parentRel_def)

lemma wf_parentRel: "acyclicStore bs \<Longrightarrow> wf (parentRel bs)"
  unfolding acyclicStore_def by (rule finite_acyclic_wf [OF finite_parentRel])

lemma wf_parentRel_converse: "acyclicStore bs \<Longrightarrow> wf ((parentRel bs)\<inverse>)"
  unfolding acyclicStore_def by (rule finite_acyclic_wf_converse [OF finite_parentRel])

text \<open>A store is acyclic as soon as some rank strictly drops from every node to its parent.\<close>

lemma acyclicStore_rankI:
  fixes rank :: "string \<Rightarrow> nat"
  assumes "\<forall>b \<in> set bs. rank (parent b) < rank (nid b)"
  shows "acyclicStore bs"
  unfolding acyclicStore_def
  by (rule acyclicI_order [where f = rank]) (use assms in \<open>auto simp: parentRel_iff\<close>)

lemma acyclicStore_default: "acyclicStore defaultBookmarks"
  by (rule acyclicStore_rankI
        [where rank = "\<lambda>s. if s = '''' then 0 else if s = ''3'' then 1 else 2"])
     (simp add: defaultBookmarks_def)

section \<open>Termination of the ancestry walk\<close>

lemma isDescendant_returns:
  assumes "wf ((parentRel bs)\<inverse>)"
  shows "\<exists>r. isDescendant bs i a = Some r"
  using assms
proof (induction i rule: wf_induct_rule)
  case (less i)
  show ?case
  proof (cases "find_first (\<lambda>b. nid b = i) bs")
    case None
    then have "isDescendant bs i a = Some False"
      by (subst isDescendant.simps) simp
    then show ?thesis by blast
  next
    case (Some item)
    then have "item \<in> set bs" "nid item = i"
      using find_first_Some by fastforce+
    then have "(parent item, i) \<in> (parentRel bs)\<inverse>"
      by (force simp: parentRel_def)
    from less(1) [OF this] obtain r where "isDescendant bs (parent item) a = Some r"
      by blast
    then have "isDescendant bs i a =
        Some (if parent item = [] then False else if parent item = a then True else r)"
      using Some by (subst isDescendant.simps) simp
    then show ?thesis by blast
  qed
qed

text \<open>
  A set of ids that the walk never leaves (every member resolves to a node whose parent is
  non-empty, is not the sought ancestor and is again a member) is a set of arguments on
  which the source's recursion never returns.
\<close>

lemma isDescendant_diverges:
  assumes closed: "\<forall>i \<in> C. \<exists>item. find_first (\<lambda>b. nid b = i) bs = Some item
              \<and> parent item \<noteq> [] \<and> parent item \<noteq> a \<and> parent item \<in> C"
    and "i \<in> C"
  shows "isDescendant bs i a = None"
proof (rule ccontr)
  assume "isDescendant bs i a \<noteq> None"
  then obtain r where r: "isDescendant bs i a = Some r" by blast
  have "\<not> (bs = bs \<and> a = a \<and> i \<in> C)"
    by (rule isDescendant.raw_induct
          [where P = "\<lambda>bs' i' a' r'. \<not> (bs' = bs \<and> a' = a \<and> i' \<in> C)", OF _ r])
       (use closed in \<open>fastforce split: option.splits if_splits\<close>)
  with \<open>i \<in> C\<close> show False by simp
qed

text \<open>
  Claim C10. On every store whose parent-reference graph is acyclic, isDescendant returns
  for all id arguments: each recursive call moves from an id to the parent field of a node
  with that id, which is a step in the (finite, acyclic, hence well-founded) parent graph,
  and the walk stops at a missing node, at an empty parent or at the sought ancestor.
  On a store with a parent cycle that reaches neither the root nor the sought ancestor,
  the call made on a member of the cycle never returns.
\<close>

theorem isDescendant_terminates:
  "(acyclicStore bs \<longrightarrow> (\<exists>r. isDescendant bs itemId ancestorId = Some r))
   \<and> ((\<forall>i \<in> C. \<exists>item. find_first (\<lambda>b. nid b = i) bs = Some item
          \<and> parent item \<noteq> [] \<and> parent item \<noteq> ancestorId \<and> parent item \<in> C)
        \<longrightarrow> (\<forall>i \<in> C. isDescendant bs i ancestorId = None))"
  using isDescendant_returns [OF wf_parentRel_converse] isDescendant_diverges
  by blast

theorem isDescendant_terminates_witness:
  "acyclicStore defaultBookmarks
   \<and> isDescendant defaultBookmarks ''4'' ''3'' = Some True
   \<and> isDescendant defaultBookmarks ''4'' ''1'' = Some False
   \<and> isDescendant cyclicStore ''a'' ''z'' = None"
proof -
  have 1: "isDescendant defaultBookmarks ''4'' ''3'' = Some True"
    by (simp add: isDescendant.simps defaultBookmarks_def)
  have 2: "isDescendant defaultBookmarks ''4'' ''1'' = Some False"
    by (simp add: isDescendant.simps defaultBookmarks_def)
  have "\<forall>i \<in> {''a'', ''b''}. \<exists>item. find_first (\<lambda>b. nid b = i) cyclicStore = Some item
          \<and> parent item \<noteq> [] \<and> parent item \<noteq> ''z'' \<and> parent item \<in> {''a'', ''b''}"
    by (simp add: cyclicStore_def)
  with isDescendant_terminates [of cyclicStore "''a''" "''z''" "{''a'', ''b''}"]
  have 3: "isDescendant cyclicStore ''a'' ''z'' = None" by blast
  from isDescendant_terminates [of defaultBookmarks "''4''" "''3''" "{}"] acyclicStore_default
  have "\<exists>r. isDescendant defaultBookmarks ''4'' ''3'' = Some r" by blast
  with 1 2 3 acyclicStore_default show ?thesis by simp
qed

section \<open>Facts about sorting and the child sequence\<close>

lemma mset_insertBy: "mset (insertBy c x xs) = add_mset x (mset xs)"
  by (induction xs) auto

lemma mset_sortBy: "mset (sortBy c xs) = mset xs"
  by (induction xs) (auto simp: sortBy_def mset_insertBy)

lemma set_sortBy: "set (sortBy c xs) = set xs"
  using mset_sortBy [of c xs] by (metis set_mset_mset)

lemma set_insertBy: "set (insertBy c x ys) = insert x (set ys)"
  by (induction ys) auto

lemma sorted_insertBy:
  assumes "sorted_wrt (\<lambda>a b. c a b \<le> 0) ys"
    and total: "\<And>a b. a \<in> insert x (set ys) \<Longrightarrow> b \<in> insert x (set ys) \<Longrightarrow> c a b \<le> 0 \<or> c b a \<le> 0"
    and trans: "\<And>a b d. a \<in> insert x (set ys) \<Longrightarrow> b \<in> insert x (set ys) \<Longrightarrow> d \<in> insert x (set ys)
                  \<Longrightarrow> c a b \<le> 0 \<Longrightarrow> c b d \<le> 0 \<Longrightarrow> c a d \<le> 0"
  shows "sorted_wrt (\<lambda>a b. c a b \<le> 0) (insertBy c x ys)"
  using assms
proof (induction ys)
  case Nil
  show ?case by simp
next
  case (Cons y ys)
  show ?case
  proof (cases "c x y \<le> 0")
    case True
    have "c x z \<le> 0" if "z \<in> set ys" for z
    proof -
      from Cons.prems(1) that have "c y z \<le> 0" by simp
      with True show ?thesis using Cons.prems(3) [of x y z] that by simp
    qed
    with True Cons.prems(1) show ?thesis by simp
  next
    case False
    with Cons.prems(2) [of x y] have yx: "c y x \<le> 0" by simp
    have "sorted_wrt (\<lambda>a b. c a b \<le> 0) (insertBy c x ys)"
    proof (rule Cons.IH)
      show "sorted_wrt (\<lambda>a b. c a b \<le> 0) ys" using Cons.prems(1) by simp
      show "c a b \<le> 0 \<or> c b a \<le> 0" if "a \<in> insert x (set ys)" "b \<in> insert x (set ys)" for a b
        using Cons.prems(2) [of a b] that by auto
      show "c a d \<le> 0" if "a \<in> insert x (set ys)" "b \<in> insert x (set ys)" "d \<in> insert x (set ys)"
          "c a b \<le> 0" "c b d \<le> 0" for a b d
        using Cons.prems(3) [of a b d] that by auto
    qed
    moreover have "c y z \<le> 0" if "z \<in> set (insertBy c x ys)" for z
      using that yx Cons.prems(1) by (auto simp: set_insertBy)
    ultimately show ?thesis using False by simp
  qed
qed

lemma sorted_sortBy:
  assumes total: "\<And>a b. a \<in> set xs \<Longrightarrow> b \<in> set xs \<Longrightarrow> c a b \<le> 0 \<or> c b a \<le> 0"
    and trans: "\<And>a b d. a \<in> set xs \<Longrightarrow> b \<in> set xs \<Longrightarrow> d \<in> set xs
                  \<Longrightarrow> c a b \<le> 0 \<Longrightarrow> c b d \<le> 0 \<Longrightarrow> c a d \<le> 0"
  shows "sorted_wrt (\<lambda>a b. c a b \<le> 0) (sortBy c xs)"
  using assms
proof (induction xs)
  case Nil
  show ?case by (simp add: sortBy_def)
next
  case (Cons x xs)
  have s: "sorted_wrt (\<lambda>a b. c a b \<le> 0) (sortBy c xs)"
  proof (rule Cons.IH)
    show "c a b \<le> 0 \<or> c b a \<le> 0" if "a \<in> set xs" "b \<in> set xs" for a b
      using Cons.prems(1) [of a b] that by simp
    show "c a d \<le> 0" if "a \<in> set xs" "b \<in> set xs" "d \<in> set xs" "c a b \<le> 0" "c b d \<le> 0" for a b d
      using Cons.prems(2) [of a b d] that by simp
  qed
  have "sorted_wrt (\<lambda>a b. c a b \<le> 0) (insertBy c x (sortBy c xs))"
  proof (rule sorted_insertBy [OF s])
    show "c a b \<le> 0 \<or> c b a \<le> 0"
      if "a \<in> insert x (set (sortBy c xs))" "b \<in> insert x (set (sortBy c xs))" for a b
      using Cons.prems(1) [of a b] that by (simp add: set_sortBy)
    show "c a d \<le> 0"
      if "a \<in> insert x (set (sortBy c xs))" "b \<in> insert x (set (sortBy c xs))"
        "d \<in> insert x (set (sortBy c xs))" "c a b \<le> 0" "c b d \<le> 0" for a b d
      using Cons.prems(2) [of a b d] that by (simp add: set_sortBy)
  qed
  then show ?case by (simp add: sortBy_def)
qed

lemma set_getItemsByParentIdx:
  "set (getItemsByParentIdx bs p) = {i. i < length bs \<and> parent (bs ! i) = p}"
  by (auto simp: getItemsByParentIdx_def set_sortBy)

lemma set_getItemsByParent: "set (getItemsByParent bs p) = {b \<in> set bs. parent b = p}"
  by (auto simp: getItemsByParent_def set_getItemsByParentIdx in_set_conv_nth)

lemma getItemsByParent_subset: "set (getItemsByParent bs p) \<subseteq> set bs"
  by (auto simp: set_getItemsByParent)

section \<open>Dangling parents\<close>




section \<open>Cascading delete removes exactly the subtree\<close>

lemma parentRel_filter: "parentRel (filter P bs) \<subseteq> parentRel bs"
  by (auto simp: parentRel_def)

lemma descendants_filter: "descendants (filter P bs) i \<subseteq> descendants bs i"
  unfolding descendants_def using rtrancl_mono [OF parentRel_filter] by blast

lemma reach_survives:
  assumes "closedUnder bs D" and "(y, x) \<in> (parentRel bs)\<^sup>*" and "y \<notin> D"
  shows "(y, x) \<in> (parentRel (removeIds D bs))\<^sup>*"
  using assms(2,3)
proof (induction rule: converse_rtrancl_induct)
  case base
  show ?case by simp
next
  case (step y z)
  from step(1) obtain b where b: "b \<in> set bs" "nid b = y" "parent b = z"
    by (auto simp: parentRel_iff)
  with step(4) assms(1) have "z \<notin> D" by (auto simp: closedUnder_def)
  moreover from b step(4) have "(y, z) \<in> parentRel (removeIds D bs)"
    by (auto simp: parentRel_iff)
  ultimately show ?case using step(3) by (meson converse_rtrancl_into_rtrancl)
qed

lemma closedUnder_descendants: "closedUnder bs (descendants bs i)"
proof -
  have "(nid b, i) \<in> (parentRel bs)\<^sup>*"
    if "b \<in> set bs" and "(parent b, i) \<in> (parentRel bs)\<^sup>*" for b
  proof -
    from that(1) have "(nid b, parent b) \<in> parentRel bs" by (auto simp: parentRel_iff)
    then show ?thesis using that(2) by (rule converse_rtrancl_into_rtrancl)
  qed
  then show ?thesis by (simp add: closedUnder_def descendants_def)
qed

lemma closedUnder_Un: "closedUnder bs A \<Longrightarrow> closedUnder bs B \<Longrightarrow> closedUnder bs (A \<union> B)"
  by (auto simp: closedUnder_def)

lemma closedUnder_empty: "closedUnder bs {}"
  by (simp add: closedUnder_def)

lemma removeIds_descendants:
  assumes "closedUnder bs D"
  shows "removeIds (descendants (removeIds D bs) c) (removeIds D bs) = removeIds (D \<union> descendants bs c) bs"
proof -
  have "\<And>b. b \<in> set bs \<Longrightarrow> nid b \<notin> D \<Longrightarrow>
          nid b \<in> descendants (removeIds D bs) c \<longleftrightarrow> nid b \<in> descendants bs c"
    using descendants_filter reach_survives [OF assms]
    by (auto simp: descendants_def)
  then show ?thesis by (auto intro!: filter_cong)
qed

lemma forEach_delete:
  assumes "\<And>c s. c \<in> set cs \<Longrightarrow> parentRel s \<subseteq> r \<Longrightarrow>
             deleteRecursive s (nid c) = Some (removeIds (descendants s (nid c)) s)"
    and "parentRel bs \<subseteq> r" and "closedUnder bs D"
  shows "forEachM (\<lambda>child s. deleteRecursive s (nid child)) cs (removeIds D bs)
         = Some (removeIds (D \<union> (\<Union>c \<in> set cs. descendants bs (nid c))) bs)"
  using assms
proof (induction cs arbitrary: D)
  case Nil
  show ?case by simp
next
  case (Cons c cs)
  have sub: "parentRel (removeIds D bs) \<subseteq> r"
    using parentRel_filter Cons.prems(2) by blast
  have "deleteRecursive (removeIds D bs) (nid c) = Some (removeIds (D \<union> descendants bs (nid c)) bs)"
    using Cons.prems(1) [OF _ sub, of c] removeIds_descendants [OF Cons.prems(3)] by simp
  moreover have "closedUnder bs (D \<union> descendants bs (nid c))"
    by (rule closedUnder_Un [OF Cons.prems(3) closedUnder_descendants])
  ultimately show ?case
    using Cons.IH [of "D \<union> descendants bs (nid c)"] Cons.prems(1,2)
    by (simp add: Un_assoc)
qed

lemma descendants_unfold:
  "descendants bs i = insert i (\<Union>c \<in> {b \<in> set bs. parent b = i}. descendants bs (nid c))"
proof (rule set_eqI)
  fix j
  have "(j, i) \<in> (parentRel bs)\<^sup>* \<longleftrightarrow>
        j = i \<or> (\<exists>z. (j, z) \<in> (parentRel bs)\<^sup>* \<and> (z, i) \<in> parentRel bs)"
    by (blast elim: rtranclE intro: rtrancl_into_rtrancl)
  also have "\<dots> \<longleftrightarrow> j = i \<or> (\<exists>c \<in> set bs. parent c = i \<and> (j, nid c) \<in> (parentRel bs)\<^sup>*)"
    unfolding parentRel_iff by blast
  finally show "j \<in> descendants bs i \<longleftrightarrow>
      j \<in> insert i (\<Union>c \<in> {b \<in> set bs. parent b = i}. descendants bs (nid c))"
    by (simp add: descendants_def) blast
qed

lemma deleteRecursive_result:
  assumes "wf r"
  shows "parentRel bs \<subseteq> r \<Longrightarrow> deleteRecursive bs i = Some (removeIds (descendants bs i) bs)"
  using assms
proof (induction i arbitrary: bs rule: wf_induct_rule)
  case (less i)
  let ?cs = "getItemsByParent bs i"
  have IH: "\<And>c s. c \<in> set ?cs \<Longrightarrow> parentRel s \<subseteq> r \<Longrightarrow>
             deleteRecursive s (nid c) = Some (removeIds (descendants s (nid c)) s)"
  proof -
    fix c s assume "c \<in> set ?cs" and s: "parentRel s \<subseteq> r"
    then have "(nid c, i) \<in> parentRel bs" by (auto simp: set_getItemsByParent parentRel_iff)
    with less.prems have "(nid c, i) \<in> r" by blast
    from less.IH [OF this s] show "deleteRecursive s (nid c) = Some (removeIds (descendants s (nid c)) s)" .
  qed
  have "forEachM (\<lambda>child s. deleteRecursive s (nid child)) ?cs (removeIds {} bs)
         = Some (removeIds ({} \<union> (\<Union>c \<in> set ?cs. descendants bs (nid c))) bs)"
    by (rule forEach_delete [OF IH less.prems closedUnder_empty])
  then have "forEachM (\<lambda>child s. deleteRecursive s (nid child)) ?cs bs
         = Some (removeIds (\<Union>c \<in> set ?cs. descendants bs (nid c)) bs)"
    by simp
  then have "deleteRecursive bs i
      = Some (filter (\<lambda>b. nid b \<noteq> i) (removeIds (\<Union>c \<in> set ?cs. descendants bs (nid c)) bs))"
    by (subst deleteRecursive.simps) simp
  also have "filter (\<lambda>b. nid b \<noteq> i) (removeIds (\<Union>c \<in> set ?cs. descendants bs (nid c)) bs)
      = removeIds (descendants bs i) bs"
  proof -
    have "descendants bs i = insert i (\<Union>c \<in> set ?cs. descendants bs (nid c))"
      using descendants_unfold [of bs i] by (simp only: set_getItemsByParent)
    then have eq: "(nid b \<notin> (\<Union>c \<in> set ?cs. descendants bs (nid c)) \<and> nid b \<noteq> i)
        \<longleftrightarrow> nid b \<notin> descendants bs i" for b
      by blast
    show ?thesis by (simp only: filter_filter eq)
  qed
  finally show ?case .
qed

lemma deleteRecursive_leaf:
  "getItemsByParent bs i = [] \<Longrightarrow> deleteRecursive bs i = Some (filter (\<lambda>b. nid b \<noteq> i) bs)"
  by (subst deleteRecursive.simps) simp

lemma getItemsByParentIdx_default_3: "getItemsByParentIdx defaultBookmarks ''3'' = [3, 4]"
  by (simp add: getItemsByParentIdx_def defaultBookmarks_def sortBy_def compareOrder_def upt_rec)

lemma deleteItem_default_3:
  "deleteItem defaultBookmarks ''3'' True False = Some (take 2 defaultBookmarks)"
proof -
  have cs: "getItemsByParent defaultBookmarks ''3'' = [defaultBookmarks ! 3, defaultBookmarks ! 4]"
    by (simp add: getItemsByParent_def getItemsByParentIdx_default_3)
  have 4: "deleteRecursive defaultBookmarks ''4'' = Some (filter (\<lambda>b. nid b \<noteq> ''4'') defaultBookmarks)"
    by (rule deleteRecursive_leaf)
       (simp add: getItemsByParent_def getItemsByParentIdx_def defaultBookmarks_def sortBy_def upt_rec)
  have 5: "deleteRecursive (filter (\<lambda>b. nid b \<noteq> ''4'') defaultBookmarks) ''5''
      = Some (filter (\<lambda>b. nid b \<noteq> ''5'') (filter (\<lambda>b. nid b \<noteq> ''4'') defaultBookmarks))"
    by (rule deleteRecursive_leaf)
       (simp add: getItemsByParent_def getItemsByParentIdx_def defaultBookmarks_def sortBy_def upt_rec)
  have n: "nid (defaultBookmarks ! 3) = ''4''" "nid (defaultBookmarks ! 4) = ''5''"
    by (simp_all add: defaultBookmarks_def)
  have "deleteRecursive defaultBookmarks ''3'' =
      Some (filter (\<lambda>b. nid b \<noteq> ''3'') (filter (\<lambda>b. nid b \<noteq> ''5'') (filter (\<lambda>b. nid b \<noteq> ''4'') defaultBookmarks)))"
    by (subst deleteRecursive.simps) (simp add: cs n 4 5)
  then show ?thesis by (simp add: deleteItem_def) (simp add: defaultBookmarks_def)
qed

text \<open>
  Claim C2. On every acyclic store, once the deletion is confirmed, deleteItem(i) returns,
  and the store it leaves is the old store without the records whose id is i or reaches i
  along parent references, the other records unchanged and in their old order: every
  transitive descendant of i is removed with it, the nodes outside the subtree stay, and
  no remaining node has i anywhere on its parent chain.
\<close>

theorem deleteItem_cascade:
  assumes "acyclicStore bs" and "skipConfirm \<or> confirmAnswer"
  shows "\<exists>bs'. deleteItem bs i skipConfirm confirmAnswer = Some bs'
           \<and> bs' = filter (\<lambda>b. (nid b, i) \<notin> (parentRel bs)\<^sup>*) bs
           \<and> (\<forall>b \<in> set bs'. (nid b, i) \<notin> (parentRel bs')\<^sup>*)"
proof -
  let ?bs' = "filter (\<lambda>b. (nid b, i) \<notin> (parentRel bs)\<^sup>*) bs"
  have "deleteRecursive bs i = Some (filter (\<lambda>b. nid b \<notin> descendants bs i) bs)"
    by (rule deleteRecursive_result [OF wf_parentRel [OF assms(1)] subset_refl])
  then have 1: "deleteItem bs i skipConfirm confirmAnswer = Some ?bs'"
    using assms(2) by (auto simp: deleteItem_def descendants_def)
  have "(nid b, i) \<notin> (parentRel ?bs')\<^sup>*" if "b \<in> set ?bs'" for b
  proof -
    from that have "(nid b, i) \<notin> (parentRel bs)\<^sup>*" by simp
    then show ?thesis using rtrancl_mono [OF parentRel_filter] by blast
  qed
  with 1 show ?thesis by blast
qed

theorem deleteItem_cascade_witness:
  "acyclicStore defaultBookmarks
   \<and> deleteItem defaultBookmarks ''3'' True False = Some (take 2 defaultBookmarks)
   \<and> take 2 defaultBookmarks = filter (\<lambda>b. (nid b, ''3'') \<notin> (parentRel defaultBookmarks)\<^sup>*) defaultBookmarks
   \<and> map nid (take 2 defaultBookmarks) = [''1'', ''2'']"
proof -
  from deleteItem_cascade [OF acyclicStore_default, of True False "''3''"]
  have "Some (take 2 defaultBookmarks)
      = Some (filter (\<lambda>b. (nid b, ''3'') \<notin> (parentRel defaultBookmarks)\<^sup>*) defaultBookmarks)"
    unfolding deleteItem_default_3 by blast
  moreover have "map nid (take 2 defaultBookmarks) = [''1'', ''2'']"
    by (simp add: defaultBookmarks_def)
  ultimately show ?thesis using acyclicStore_default deleteItem_default_3 by simp
qed

section \<open>Search ranking\<close>
















lemma searchBookmarks_alphaStore:
  assumes "0 < lc ''Zeta'' ''Alpha''"
  shows "searchBookmarks lc alphaStore ''A'' = [mk ''a'' ''Alpha'' 0, mk ''z'' ''Zeta'' 0]"
proof -
  have "filter (\<lambda>b. includesStr (toLowerCase (name b)) (toLowerCase ''A'')) alphaStore
       = [mk ''z'' ''Zeta'' 0, mk ''a'' ''Alpha'' 0]"
    by code_simp
  then have "searchBookmarks lc alphaStore ''A''
      = sortBy (compareSearch lc) [mk ''z'' ''Zeta'' 0, mk ''a'' ''Alpha'' 0]"
    by (simp add: searchBookmarks_def)
  then show ?thesis using assms by (simp add: sortBy_def compareSearch_def timeOf_def mk_def)
qed




section \<open>The navigation cursor\<close>

lemma find_first_folder:
  "find_first (\<lambda>b. nid b = i \<and> ntype b = ''folder'') bs = None \<longleftrightarrow> \<not> resolvesToFolder bs i"
  by (auto simp: find_first_None resolvesToFolder_def)

lemma restore_ids:
  "map fst (restoreNavigationState bs (StatePath path) cur) = filter (resolvesToFolder bs) (map fst path)"
proof (induction path)
  case Nil
  show ?case by (simp add: restoreNavigationState_def List.map_filter_simps)
next
  case (Cons e path)
  show ?case
  proof (cases "find_first (\<lambda>b. nid b = fst e \<and> ntype b = ''folder'') bs")
    case None
    then show ?thesis using Cons find_first_folder [of "fst e" bs]
      by (simp add: restoreNavigationState_def List.map_filter_simps)
  next
    case (Some folder)
    then have "nid folder = fst e" using find_first_Some by fastforce
    moreover have "resolvesToFolder bs (fst e)" using Some find_first_folder [of "fst e" bs] by simp
    ultimately show ?thesis using Cons Some
      by (simp add: restoreNavigationState_def List.map_filter_simps)
  qed
qed

text \<open>
  Counterexample to claim C7 as stated: the stored path names a folder that no longer
  exists and then the live folder 3; the restored cursor holds folder 3, an entry that
  follows an invalid one.
\<close>

theorem restoreNavigationState_counterexample:
  "restoreNavigationState defaultBookmarks
     (StatePath [(''9'', ''Gone''), (''3'', ''Development'')]) []
   = [(''3'', ''Development'')]"
  by (simp add: restoreNavigationState_def List.map_filter_simps defaultBookmarks_def)

text \<open>
  Claim C7, amended. Restoring a stored path drops exactly the entries whose id does not
  resolve to an existing folder node and keeps every other entry, in the stored order:
  the cursor is not truncated at the first invalid entry, and an entry that follows an
  invalid one survives when its own id resolves.
\<close>

theorem restoreNavigationState_filters:
  "map fst (restoreNavigationState bs (StatePath path) cur) = filter (resolvesToFolder bs) (map fst path)
   \<and> (\<forall>e \<in> set (restoreNavigationState bs (StatePath path) cur). resolvesToFolder bs (fst e))
   \<and> (\<forall>e \<in> set path. resolvesToFolder bs (fst e) \<longrightarrow>
         fst e \<in> fst ` set (restoreNavigationState bs (StatePath path) cur))"
proof -
  let ?r = "restoreNavigationState bs (StatePath path) cur"
  have ids: "map fst ?r = filter (resolvesToFolder bs) (map fst path)" by (rule restore_ids)
  have "fst ` set ?r = {i \<in> fst ` set path. resolvesToFolder bs i}"
    using arg_cong [OF ids, of set] by auto 
  then show ?thesis using ids by auto
qed

theorem restoreNavigationState_filters_witness:
  "map fst (restoreNavigationState defaultBookmarks
      (StatePath [(''9'', ''Gone''), (''3'', ''Development''), (''1'', ''Google'')]) [])
    = filter (resolvesToFolder defaultBookmarks) [''9'', ''3'', ''1'']
   \<and> filter (resolvesToFolder defaultBookmarks) [''9'', ''3'', ''1''] = [''3'']"
proof -
  have "filter (resolvesToFolder defaultBookmarks) [''9'', ''3'', ''1''] = [''3'']"
    by (simp add: resolvesToFolder_def defaultBookmarks_def)
  with restoreNavigationState_filters
    [of defaultBookmarks "[(''9'', ''Gone''), (''3'', ''Development''), (''1'', ''Google'')]" "[]"]
  show ?thesis by simp
qed

text \<open>
  Claim C8. Descending at a level at or beyond MAX_LEVELS fails with the depth-exceeded
  alert and leaves currentPath exactly as it was. Descending at a level from 1 to
  MAX_LEVELS - 1 truncates currentPath to the level - 1 entries above and appends the
  entry of the folder, and succeeds when the page has the next pane. So the descent that
  opens pane MAX_LEVELS succeeds and the one a level deeper fails.
\<close>

theorem navigateToFolder_depth:
  "(MAX_LEVELS \<le> level \<longrightarrow> navigateToFolder pe folder level path = (DepthExceeded, path))
   \<and> (1 \<le> level \<and> level < MAX_LEVELS \<longrightarrow>
        snd (navigateToFolder pe folder level path)
          = take (nat (level - 1)) path @ [(nid folder, name folder)]
        \<and> (pe (level + 1) \<longrightarrow> fst (navigateToFolder pe folder level path) = Navigated))
   \<and> (pe MAX_LEVELS \<longrightarrow> fst (navigateToFolder pe folder (MAX_LEVELS - 1) path) = Navigated)
   \<and> fst (navigateToFolder pe folder MAX_LEVELS path) = DepthExceeded"
  by (simp add: navigateToFolder_def slice0_def Let_def MAX_LEVELS_def)

theorem navigateToFolder_depth_witness:
  "navigateToFolder (\<lambda>n. 1 \<le> n \<and> n \<le> 10) (defaultBookmarks ! 2) 10 [(''8'', ''Top'')]
     = (DepthExceeded, [(''8'', ''Top'')])
   \<and> navigateToFolder (\<lambda>n. 1 \<le> n \<and> n \<le> 10) (defaultBookmarks ! 2) 1 [(''8'', ''Top'')]
     = (Navigated, [(''3'', ''Development'')])
   \<and> navigateToFolder (\<lambda>n. 1 \<le> n \<and> n \<le> 10) (defaultBookmarks ! 2) 2 [(''8'', ''Top'')]
     = (Navigated, [(''8'', ''Top''), (''3'', ''Development'')])
   \<and> fst (navigateToFolder (\<lambda>n. 1 \<le> n \<and> n \<le> 10) (defaultBookmarks ! 2) 9 [(''8'', ''Top'')])
     = Navigated"
proof -
  let ?pe = "\<lambda>n::int. 1 \<le> n \<and> n \<le> 10"
  let ?f = "defaultBookmarks ! 2"
  have f: "nid ?f = ''3''" "name ?f = ''Development''" by (simp_all add: defaultBookmarks_def)
  have "navigateToFolder ?pe ?f 10 [(''8'', ''Top'')] = (DepthExceeded, [(''8'', ''Top'')])"
    using navigateToFolder_depth [of 10 ?pe ?f "[(''8'', ''Top'')]"] by (simp add: MAX_LEVELS_def)
  moreover have "navigateToFolder ?pe ?f 1 [(''8'', ''Top'')] = (Navigated, [(''3'', ''Development'')])"
    using navigateToFolder_depth [of 1 ?pe ?f "[(''8'', ''Top'')]"] f
    by (simp add: MAX_LEVELS_def prod_eq_iff)
  moreover have "navigateToFolder ?pe ?f 2 [(''8'', ''Top'')]
      = (Navigated, [(''8'', ''Top''), (''3'', ''Development'')])"
    using navigateToFolder_depth [of 2 ?pe ?f "[(''8'', ''Top'')]"] f
    by (simp add: MAX_LEVELS_def prod_eq_iff)
  moreover have "fst (navigateToFolder ?pe ?f 9 [(''8'', ''Top'')]) = Navigated"
    using navigateToFolder_depth [of 9 ?pe ?f "[(''8'', ''Top'')]"] by (simp add: MAX_LEVELS_def)
  ultimately show ?thesis by simp
qed

section \<open>Reordering within one parent\<close>

lemma compareOrder_total: "compareOrder bs a b \<le> 0 \<or> compareOrder bs b a \<le> 0"
  by (auto simp: compareOrder_def split: option.splits)

lemma compareOrder_trans:
  "compareOrder bs a b \<le> 0 \<Longrightarrow> compareOrder bs b d \<le> 0 \<Longrightarrow> compareOrder bs a d \<le> 0"
  by (auto simp: compareOrder_def split: option.splits if_splits)

lemma compareOrder_antisym:
  "compareOrder bs a b \<le> 0 \<Longrightarrow> compareOrder bs b a \<le> 0 \<Longrightarrow> a = b"
  by (auto simp: compareOrder_def split: option.splits if_splits)

lemma sorted_wrt_unique:
  assumes "sorted_wrt R xs" and "sorted_wrt R ys" and "mset xs = mset ys"
    and antisym: "\<And>a b. R a b \<Longrightarrow> R b a \<Longrightarrow> a = b"
  shows "xs = ys"
  using assms(1-3)
proof (induction xs arbitrary: ys)
  case Nil
  then show ?case by simp
next
  case (Cons x xs)
  then obtain y ys' where ys: "ys = y # ys'" by (cases ys) auto
  have "x \<in> set ys" using Cons.prems(3) by (metis list.set_intros(1) mset_eq_setD)
  then have 1: "x = y \<or> R y x" using Cons.prems(2) ys by auto
  have "y \<in> set (x # xs)" using Cons.prems(3) ys by (metis list.set_intros(1) mset_eq_setD)
  then have 2: "y = x \<or> R x y" using Cons.prems(1) by auto
  from 1 2 antisym have xy: "x = y" by blast
  with Cons.prems ys have "xs = ys'" by (intro Cons.IH) auto
  with xy ys show ?case by simp
qed

lemma filter_neq_absent: "v \<notin> set ys \<Longrightarrow> filter (\<lambda>x. x \<noteq> v) ys = ys"
  by (induction ys) auto

lemma filter_neq_nth:
  assumes "distinct xs" and "k < length xs"
  shows "filter (\<lambda>x. x \<noteq> xs ! k) xs = take k xs @ drop (Suc k) xs"
proof -
  have xs: "xs = take k xs @ xs ! k # drop (Suc k) xs" using assms(2) by (rule id_take_nth_drop)
  from assms(1) have d: "distinct (take k xs @ xs ! k # drop (Suc k) xs)" using xs by simp
  then have "xs ! k \<notin> set (take k xs)" "xs ! k \<notin> set (drop (Suc k) xs)" by auto
  then have "filter (\<lambda>x. x \<noteq> xs ! k) (take k xs @ xs ! k # drop (Suc k) xs)
      = take k xs @ drop (Suc k) xs"
    by (simp add: filter_neq_absent)
  with xs show ?thesis by simp
qed

lemma findIndex_append:
  assumes "\<forall>x \<in> set xs. \<not> p x" and "p y"
  shows "findIndex p (xs @ y # ys) = Some (length xs)"
  using assms by (induction xs) auto

lemma setOrders_props:
  assumes "distinct xs" and "\<forall>x \<in> set xs. x < length bs"
  shows "length (setOrders n xs bs) = length bs
    \<and> (\<forall>j < length xs. setOrders n xs bs ! (xs ! j) = (bs ! (xs ! j))\<lparr>order := Some (int (n + j))\<rparr>)
    \<and> (\<forall>i. i \<notin> set xs \<longrightarrow> setOrders n xs bs ! i = bs ! i)"
  using assms
proof (induction xs arbitrary: n bs)
  case Nil
  show ?case by (simp add: setOrders_def)
next
  case (Cons x xs)
  let ?bs = "bs[x := (bs ! x)\<lparr>order := Some (int n)\<rparr>]"
  have unf: "setOrders n (x # xs) bs = setOrders (Suc n) xs ?bs"
    by (simp add: setOrders_def)
  have IH: "length (setOrders (Suc n) xs ?bs) = length ?bs
    \<and> (\<forall>j < length xs. setOrders (Suc n) xs ?bs ! (xs ! j) = (?bs ! (xs ! j))\<lparr>order := Some (int (Suc n + j))\<rparr>)
    \<and> (\<forall>i. i \<notin> set xs \<longrightarrow> setOrders (Suc n) xs ?bs ! i = ?bs ! i)"
    by (rule Cons.IH) (use Cons.prems in auto)
  have x: "x \<notin> set xs" "x < length bs" using Cons.prems by auto
  have 1: "length (setOrders n (x # xs) bs) = length bs" using IH unf by simp
  have 2: "setOrders n (x # xs) bs ! ((x # xs) ! j) = (bs ! ((x # xs) ! j))\<lparr>order := Some (int (n + j))\<rparr>"
    if "j < length (x # xs)" for j
  proof (cases j)
    case 0
    then show ?thesis using IH x unf by simp
  next
    case (Suc j')
    with that have j': "j' < length xs" by simp
    then have "xs ! j' \<noteq> x" using x(1) by (metis nth_mem)
    then show ?thesis using IH j' unf Suc by simp
  qed
  have 3: "setOrders n (x # xs) bs ! i = bs ! i" if "i \<notin> set (x # xs)" for i
    using IH unf that by simp
  from 1 2 3 show ?case by blast
qed

lemma distinct_getItemsByParentIdx: "distinct (getItemsByParentIdx bs p)"
proof -
  have "mset (getItemsByParentIdx bs p) = mset (filter (\<lambda>i. parent (bs ! i) = p) [0..<length bs])"
    by (simp add: getItemsByParentIdx_def mset_sortBy)
  moreover have "distinct (filter (\<lambda>i. parent (bs ! i) = p) [0..<length bs])" by simp
  ultimately show ?thesis using mset_eq_imp_distinct_iff by blast
qed

lemma sorted_getItemsByParentIdx:
  "sorted_wrt (\<lambda>a b. compareOrder bs a b \<le> 0) (getItemsByParentIdx bs p)"
  unfolding getItemsByParentIdx_def
proof (rule sorted_sortBy)
  show "compareOrder bs a b \<le> 0 \<or> compareOrder bs b a \<le> 0" for a b
    by (rule compareOrder_total)
  show "compareOrder bs a d \<le> 0" if "compareOrder bs a b \<le> 0" "compareOrder bs b d \<le> 0" for a b d
    using that by (rule compareOrder_trans)
qed

text \<open>
  The child sequence is the only arrangement of the children of a parent that is sorted
  by the comparison function.
\<close>

lemma getItemsByParentIdx_unique:
  assumes "sorted_wrt (\<lambda>a b. compareOrder bs a b \<le> 0) S"
    and "mset S = mset (filter (\<lambda>i. parent (bs ! i) = p) [0..<length bs])"
  shows "getItemsByParentIdx bs p = S"
proof (rule sorted_wrt_unique [where R = "\<lambda>a b. compareOrder bs a b \<le> 0"])
  show "sorted_wrt (\<lambda>a b. compareOrder bs a b \<le> 0) (getItemsByParentIdx bs p)"
    by (rule sorted_getItemsByParentIdx)
  show "sorted_wrt (\<lambda>a b. compareOrder bs a b \<le> 0) S" by (rule assms(1))
  show "mset (getItemsByParentIdx bs p) = mset S"
    using assms(2) by (simp add: getItemsByParentIdx_def mset_sortBy)
  show "a = b" if "compareOrder bs a b \<le> 0" "compareOrder bs b a \<le> 0" for a b
    using that by (rule compareOrder_antisym)
qed

lemma reorder_adjacent:
  assumes ids: "distinct (map (\<lambda>i. nid (bs ! i)) (getItemsByParentIdx bs P))"
    and k: "Suc k < length (getItemsByParentIdx bs P)"
    and d: "getItemsByParentIdx bs P ! k = d"
    and t: "getItemsByParentIdx bs P ! Suc k = t"
  shows "reorderBookmark bs d (bs ! t) P = setOrders 0 (getItemsByParentIdx bs P) bs"
proof -
  let ?S = "getItemsByParentIdx bs P"
  have dist: "distinct ?S" by (rule distinct_getItemsByParentIdx)
  have mem: "\<And>s. s \<in> set ?S \<Longrightarrow> s < length bs \<and> parent (bs ! s) = P"
    by (simp add: set_getItemsByParentIdx)
  have dS: "d \<in> set ?S" and tS: "t \<in> set ?S" using k d t by (metis Suc_lessD nth_mem)+
  have idinj: "nid (bs ! a) = nid (bs ! b) \<longleftrightarrow> a = b" if "a \<in> set ?S" "b \<in> set ?S" for a b
    using ids that by (auto simp: distinct_map dest: inj_onD)
  have W: "filter (\<lambda>s. nid (bs ! s) \<noteq> nid (bs ! d)) ?S = take k ?S @ drop (Suc k) ?S"
  proof -
    have "filter (\<lambda>s. nid (bs ! s) \<noteq> nid (bs ! d)) ?S = filter (\<lambda>s. s \<noteq> ?S ! k) ?S"
      by (rule filter_cong) (use idinj dS d in auto)
    also have "\<dots> = take k ?S @ drop (Suc k) ?S"
      by (rule filter_neq_nth [OF dist]) (use k in simp)
    finally show ?thesis .
  qed
  have dropS: "drop (Suc k) ?S = t # drop (Suc (Suc k)) ?S"
    using k t by (metis Cons_nth_drop_Suc)
  have "\<forall>x \<in> set (take k ?S). nid (bs ! x) \<noteq> nid (bs ! t)"
  proof
    fix x assume x: "x \<in> set (take k ?S)"
    then have xS: "x \<in> set ?S" by (rule in_set_takeD)
    have "?S = take k ?S @ drop k ?S" by simp
    moreover have "t \<in> set (drop k ?S)" using dropS by (metis Cons_nth_drop_Suc Suc_lessD k list.set_intros(1) list.set_intros(2))
    ultimately have "x \<noteq> t" using dist x by (metis distinct_append disjoint_iff)
    then show "nid (bs ! x) \<noteq> nid (bs ! t)" using idinj xS tS by simp
  qed
  then have fi: "findIndex (\<lambda>s. nid (bs ! s) = nid (bs ! t))
      (take k ?S @ t # drop (Suc (Suc k)) ?S) = Some (length (take k ?S))"
    by (intro findIndex_append) auto
  have lk: "length (take k ?S) = k" using k by simp
  have spl: "take k (take k ?S @ drop (Suc k) ?S) @ [d] @ drop k (take k ?S @ drop (Suc k) ?S) = ?S"
    using lk id_take_nth_drop [of k ?S] k d by simp
  have pd: "parent (bs ! d) = P" using mem dS by simp
  let ?bs1 = "setOrders 0 ?S bs"
  have props: "length ?bs1 = length bs
    \<and> (\<forall>j < length ?S. ?bs1 ! (?S ! j) = (bs ! (?S ! j))\<lparr>order := Some (int (0 + j))\<rparr>)
    \<and> (\<forall>i. i \<notin> set ?S \<longrightarrow> ?bs1 ! i = bs ! i)"
    by (rule setOrders_props [OF dist]) (use mem in blast)
  then have "?bs1 ! d = (bs ! d)\<lparr>order := Some (int k)\<rparr>" using k d by auto
  then have "(?bs1 ! d)\<lparr>parent := P\<rparr> = ?bs1 ! d" using pd by simp
  then have fin: "?bs1[d := (?bs1 ! d)\<lparr>parent := P\<rparr>] = ?bs1" by simp
  show ?thesis
    unfolding reorderBookmark_def Let_def W
    using fi lk spl fin dropS by simp
qed

lemma setOrders_children:
  assumes "S = getItemsByParentIdx bs P"
  shows "getItemsByParentIdx (setOrders 0 S bs) P = S"
proof -
  let ?bs1 = "setOrders 0 S bs"
  have dist: "distinct S" unfolding assms by (rule distinct_getItemsByParentIdx)
  have mem: "\<And>s. s \<in> set S \<Longrightarrow> s < length bs \<and> parent (bs ! s) = P"
    unfolding assms by (simp add: set_getItemsByParentIdx)
  have props: "length ?bs1 = length bs"
      "\<And>j. j < length S \<Longrightarrow> ?bs1 ! (S ! j) = (bs ! (S ! j))\<lparr>order := Some (int j)\<rparr>"
      "\<And>i. i \<notin> set S \<Longrightarrow> ?bs1 ! i = bs ! i"
    using setOrders_props [OF dist, of bs 0] mem by auto
  have par: "parent (?bs1 ! i) = parent (bs ! i)" for i
  proof (cases "i \<in> set S")
    case True
    then obtain j where "j < length S" "S ! j = i" by (auto simp: in_set_conv_nth)
    then show ?thesis using props(2) [of j] by simp
  next
    case False
    then show ?thesis using props(3) by simp
  qed
  have sorted: "sorted_wrt (\<lambda>a b. compareOrder ?bs1 a b \<le> 0) S"
    unfolding sorted_wrt_iff_nth_less
  proof (intro allI impI)
    fix i j assume "i < j" "j < length S"
    then show "compareOrder ?bs1 (S ! i) (S ! j) \<le> 0"
      using props(2) [of i] props(2) [of j] by (simp add: compareOrder_def)
  qed
  have "mset S = mset (filter (\<lambda>i. parent (bs ! i) = P) [0..<length bs])"
    unfolding assms by (simp add: getItemsByParentIdx_def mset_sortBy)
  then have "mset S = mset (filter (\<lambda>i. parent (?bs1 ! i) = P) [0..<length ?bs1])"
    by (simp add: par props(1))
  with sorted show ?thesis by (rule getItemsByParentIdx_unique)
qed

text \<open>
  Claim C5. Let D and T be siblings under P with pairwise distinct ids among the children
  of P (ids are unique in a store), D immediately before T in the sorted child sequence
  of P. Then reorderBookmark(D, T, P) leaves that sequence unchanged, as a sequence of
  references and as a sequence of ids; the only fields it writes are order fields, which
  become the positions 0 .. n-1 of the unchanged sequence.
\<close>

theorem reorderBookmark_idempotent:
  assumes "distinct (map (\<lambda>i. nid (bs ! i)) (getItemsByParentIdx bs P))"
    and "Suc k < length (getItemsByParentIdx bs P)"
    and "getItemsByParentIdx bs P ! k = d"
    and "getItemsByParentIdx bs P ! Suc k = t"
  shows "getItemsByParentIdx (reorderBookmark bs d (bs ! t) P) P = getItemsByParentIdx bs P
    \<and> map nid (getItemsByParent (reorderBookmark bs d (bs ! t) P) P) = map nid (getItemsByParent bs P)
    \<and> map (\<lambda>b. b\<lparr>order := None\<rparr>) (reorderBookmark bs d (bs ! t) P) = map (\<lambda>b. b\<lparr>order := None\<rparr>) bs"
proof -
  let ?S = "getItemsByParentIdx bs P"
  let ?bs1 = "setOrders 0 ?S bs"
  have r: "reorderBookmark bs d (bs ! t) P = ?bs1" by (rule reorder_adjacent [OF assms])
  have dist: "distinct ?S" by (rule distinct_getItemsByParentIdx)
  have mem: "\<And>s. s \<in> set ?S \<Longrightarrow> s < length bs"
    by (simp add: set_getItemsByParentIdx)
  have props: "length ?bs1 = length bs"
      "\<And>j. j < length ?S \<Longrightarrow> ?bs1 ! (?S ! j) = (bs ! (?S ! j))\<lparr>order := Some (int j)\<rparr>"
      "\<And>i. i \<notin> set ?S \<Longrightarrow> ?bs1 ! i = bs ! i"
    using setOrders_props [OF dist, of bs 0] mem by auto
  have same: "(?bs1 ! i)\<lparr>order := None\<rparr> = (bs ! i)\<lparr>order := None\<rparr>" for i
  proof (cases "i \<in> set ?S")
    case True
    then obtain j where "j < length ?S" "?S ! j = i" by (auto simp: in_set_conv_nth)
    then show ?thesis using props(2) [of j] by simp
  next
    case False
    then show ?thesis using props(3) by simp
  qed
  have 1: "getItemsByParentIdx ?bs1 P = ?S" by (rule setOrders_children) simp
  have 3: "map (\<lambda>b. b\<lparr>order := None\<rparr>) ?bs1 = map (\<lambda>b. b\<lparr>order := None\<rparr>) bs"
    by (rule nth_equalityI) (use props(1) same in auto)
  have "nid (?bs1 ! i) = nid (bs ! i)" for i
    using arg_cong [OF same [of i], of nid] by simp
  then have 2: "map nid (getItemsByParent ?bs1 P) = map nid (getItemsByParent bs P)"
    by (simp add: getItemsByParent_def 1)
  from 1 2 3 show ?thesis unfolding r by simp
qed

lemma getItemsByParentIdx_default_root: "getItemsByParentIdx defaultBookmarks '''' = [0, 1, 2]"
  by (simp add: getItemsByParentIdx_def defaultBookmarks_def sortBy_def compareOrder_def upt_rec)

theorem reorderBookmark_idempotent_witness:
  "distinct (map (\<lambda>i. nid (defaultBookmarks ! i)) (getItemsByParentIdx defaultBookmarks ''''))
   \<and> getItemsByParentIdx defaultBookmarks '''' = [0, 1, 2]
   \<and> getItemsByParentIdx (reorderBookmark defaultBookmarks 0 (defaultBookmarks ! 1) '''') '''' = [0, 1, 2]
   \<and> getItemsByParentIdx (reorderBookmark defaultBookmarks 1 (defaultBookmarks ! 2) '''') '''' = [0, 1, 2]"
proof -
  have d: "distinct (map (\<lambda>i. nid (defaultBookmarks ! i)) (getItemsByParentIdx defaultBookmarks ''''))"
    unfolding getItemsByParentIdx_default_root by (simp add: defaultBookmarks_def)
  have "getItemsByParentIdx (reorderBookmark defaultBookmarks 0 (defaultBookmarks ! 1) '''') ''''
      = getItemsByParentIdx defaultBookmarks ''''"
    using reorderBookmark_idempotent [OF d, of 0 0 1] by (simp add: getItemsByParentIdx_default_root)
  moreover have "getItemsByParentIdx (reorderBookmark defaultBookmarks 1 (defaultBookmarks ! 2) '''') ''''
      = getItemsByParentIdx defaultBookmarks ''''"
    using reorderBookmark_idempotent [OF d, of 1 1 2] by (simp add: getItemsByParentIdx_default_root)
  ultimately show ?thesis using d by (simp add: getItemsByParentIdx_default_root)
qed

section \<open>Moves that create a cycle\<close>

text \<open>
  What the handler does guarantee: on a folder target it ignores a drop of the folder on
  itself and rejects, with nothing mutated, a drop whose target isDescendant finds below
  the dragged node.
\<close>

lemma handleDrop_folder_target:
  assumes "findIndex (\<lambda>b. nid b = draggedId) bs = Some d"
    and "ntype it = ''folder''"
  shows "nid it = nid (bs ! d) \<Longrightarrow> handleDrop bs (Some it) cp draggedId = Some (DropIgnored, bs)"
    and "nid it \<noteq> nid (bs ! d) \<Longrightarrow> isDescendant bs (nid it) (nid (bs ! d)) = Some True
           \<Longrightarrow> handleDrop bs (Some it) cp draggedId = Some (DropRejected, bs)"
  using assms by (simp_all add: handleDrop_def Let_def)

lemma acyclicStore_work: "acyclicStore workStore"
  by (rule acyclicStore_rankI
        [where rank = "\<lambda>s. if s = '''' then 0 else if s = ''w'' then 1 else 2"])
     (simp add: workStore_def)

lemma not_acyclic_after: "\<not> acyclicStore workStoreAfterDrop"
proof -
  have "(''w'', ''w'') \<in> parentRel workStoreAfterDrop"
    by (simp add: parentRel_def workStoreAfterDrop_def)
  then have "(''w'', ''w'') \<in> (parentRel workStoreAfterDrop)\<^sup>+" by (rule r_into_trancl)
  then show ?thesis by (auto simp: acyclicStore_def acyclic_def)
qed

text \<open>
  Claim C1 fails on the code. The handler asks isDescendant only when the drop target is a
  folder; when the target is a link (or the empty-list zone), the new parent is the parent
  of the target, which may be the dragged folder itself or one of its descendants.
  Dropping the folder Work on the link Mail that it contains is applied: Work becomes its
  own parent, the store is no longer acyclic, and an ancestry walk from Mail no longer
  returns.
\<close>

theorem handleDrop_self_parent:
  "acyclicStore workStore
   \<and> handleDrop workStore (Some (workStore ! 1)) '''' ''w'' = Some (DropDone, workStoreAfterDrop)
   \<and> parent (workStoreAfterDrop ! 0) = nid (workStoreAfterDrop ! 0)
   \<and> \<not> acyclicStore workStoreAfterDrop
   \<and> isDescendant workStoreAfterDrop ''m'' ''x'' = None"
proof -
  have 1: "handleDrop workStore (Some (workStore ! 1)) '''' ''w'' = Some (DropDone, workStoreAfterDrop)"
    by (simp add: handleDrop_def workStore_def workStoreAfterDrop_def Let_def)
  have 2: "parent (workStoreAfterDrop ! 0) = nid (workStoreAfterDrop ! 0)"
    by (simp add: workStoreAfterDrop_def)
  have "\<forall>i \<in> {''w'', ''m''}. \<exists>item. find_first (\<lambda>b. nid b = i) workStoreAfterDrop = Some item
              \<and> parent item \<noteq> [] \<and> parent item \<noteq> ''x'' \<and> parent item \<in> {''w'', ''m''}"
    by (simp add: workStoreAfterDrop_def)
  then have 3: "isDescendant workStoreAfterDrop ''m'' ''x'' = None"
    by (rule isDescendant_diverges) simp
  from 1 2 3 acyclicStore_work not_acyclic_after show ?thesis by simp
qed

section \<open>Importing third-party markup\<close>

text \<open>
  Claim C6 fails on the code. On the document of the markup in the claim, the folder Dev is
  pushed, the nested list is entered, and the link X (which has a url and a name) reaches
  the unbound identifier currentFolderId: parseChromeBookmarks throws a ReferenceError and
  returns no nodes at all.
\<close>

theorem parseChromeBookmarks_dev:
  "parseChromeBookmarks generateId devDocument = Inl (ReferenceError ''currentFolderId'')"
  by (simp add: parseChromeBookmarks_def devDocument_def firstElementChild_def findNestedDL_def
        nextElementSiblings_def trim_def isSpace_def getAttribute_def asciiLowerCase_def asciiLowerChar_def)

text \<open>Without the link, the same document parses to the one folder the claim describes.\<close>

lemma parseChromeBookmarks_folder_only:
  "parseChromeBookmarks generateId devFolderOnly =
     Inr [\<lparr>nid = generateId 1, name = ''Dev'', ntype = ''folder'',
            parent = [], url = None, accessTime = None, order = None\<rparr>]"
  by (simp add: parseChromeBookmarks_def devFolderOnly_def firstElementChild_def findNestedDL_def
        nextElementSiblings_def trim_def isSpace_def getAttribute_def asciiLowerCase_def asciiLowerChar_def)

section \<open>Parsing what JSON.stringify wrote\<close>

lemma hexValue_hexDigit_all: "\<forall>k \<in> set [0..<16]. hexValue (hexDigit k) = Some k"
  by code_simp

lemma hexValue_hexDigit: "k < 16 \<Longrightarrow> hexValue (hexDigit k) = Some k"
  using hexValue_hexDigit_all by simp

lemma isDigit_hexDigit_all: "\<forall>k \<in> set [0..<10]. isDigit (hexDigit k) \<and> (0 < k \<longrightarrow> hexDigit k \<noteq> CHR ''0'')"
  by code_simp

lemma isDigit_hexDigit: "k < 10 \<Longrightarrow> isDigit (hexDigit k)"
  using isDigit_hexDigit_all by simp

lemma hexDigit_nonzero: "0 < k \<Longrightarrow> k < 10 \<Longrightarrow> hexDigit k \<noteq> CHR ''0''"
  using isDigit_hexDigit_all by simp

lemma digitValue_hexDigit: "k < 10 \<Longrightarrow> digitValue (hexDigit k) = k"
  by (simp add: digitValue_def hexValue_hexDigit)

lemma hex4_control:
  assumes "(of_char c :: nat) < 32"
  shows "hex4 (CHR ''0'') (CHR ''0'') (hexDigit ((of_char c :: nat) div 16)) (hexDigit ((of_char c :: nat) mod 16)) = Some c"
proof -
  let ?n = "of_char c :: nat"
  have 0: "hexValue (CHR ''0'') = Some 0" by (simp add: hexValue_def)
  have 1: "hexValue (hexDigit (?n div 16)) = Some (?n div 16)"
    by (rule hexValue_hexDigit) (use assms in simp)
  have 2: "hexValue (hexDigit (?n mod 16)) = Some (?n mod 16)"
    by (rule hexValue_hexDigit) simp
  have "?n div 16 * 16 + ?n mod 16 = ?n" by simp
  moreover have "?n < 256" using assms by simp
  ultimately show ?thesis by (simp add: hex4_def 0 1 2)
qed

lemma parseChars_quoteChar: "parseChars (quoteChar c @ t) = consChar c (parseChars t)"
proof -
  consider (esc) "c \<in> {CHR 0x08, CHR 0x09, CHR 0x0A, CHR 0x0C, CHR 0x0D, CHR 0x22, CHR 0x5C}"
    | (ctl) "c \<notin> {CHR 0x08, CHR 0x09, CHR 0x0A, CHR 0x0C, CHR 0x0D, CHR 0x22, CHR 0x5C}" "(of_char c :: nat) < 32"
    | (lit) "c \<notin> {CHR 0x08, CHR 0x09, CHR 0x0A, CHR 0x0C, CHR 0x0D, CHR 0x22, CHR 0x5C}" "\<not> (of_char c :: nat) < 32"
    by blast
  then show ?thesis
  proof cases
    case esc
    then show ?thesis by (auto simp: quoteChar_def unescape_def)
  next
    case ctl
    then have q: "quoteChar c = [CHR 0x5C, CHR ''u'', CHR ''0'', CHR ''0'',
              hexDigit ((of_char c :: nat) div 16), hexDigit ((of_char c :: nat) mod 16)]"
      by (simp add: quoteChar_def)
    show ?thesis unfolding q using hex4_control [OF ctl(2)] by simp
  next
    case lit
    then show ?thesis by (simp add: quoteChar_def)
  qed
qed

lemma parseChars_quoted: "parseChars (concat (map quoteChar s) @ CHR 0x22 # rest) = Some (s, rest)"
proof (induction s)
  case Nil
  show ?case by simp
next
  case (Cons c s)
  have "parseChars (concat (map quoteChar (c # s)) @ CHR 0x22 # rest)
      = parseChars (quoteChar c @ (concat (map quoteChar s) @ CHR 0x22 # rest))" by simp
  also have "\<dots> = consChar c (parseChars (concat (map quoteChar s) @ CHR 0x22 # rest))"
    by (rule parseChars_quoteChar)
  also have "\<dots> = Some (c # s, rest)" by (simp add: Cons.IH consChar_def)
  finally show ?case .
qed

lemma digitsOf_nonempty: "digitsOf n \<noteq> []"
  by (subst digitsOf.simps) simp

lemma digitsOf_digits: "\<forall>d \<in> set (digitsOf n). isDigit d"
proof (induction n rule: digitsOf.induct)
  case (1 n)
  show ?case
  proof (cases "n < 10")
    case True
    then show ?thesis by (subst digitsOf.simps) (simp add: isDigit_hexDigit)
  next
    case False
    then have "\<forall>d \<in> set (digitsOf (n div 10)). isDigit d" by (rule "1.IH")
    moreover have "isDigit (hexDigit (n mod 10))" by (rule isDigit_hexDigit) simp
    ultimately show ?thesis using False by (subst digitsOf.simps) simp
  qed
qed

lemma natOfDigits_snoc: "natOfDigits (ds @ [d]) = natOfDigits ds * 10 + digitValue d"
  by (simp add: natOfDigits_def)

lemma natOfDigits_digitsOf: "natOfDigits (digitsOf n) = n"
proof (induction n rule: digitsOf.induct)
  case (1 n)
  show ?case
  proof (cases "n < 10")
    case True
    then show ?thesis by (subst digitsOf.simps) (simp add: natOfDigits_def digitValue_hexDigit)
  next
    case False
    then have "natOfDigits (digitsOf (n div 10)) = n div 10" by (rule "1.IH")
    moreover have "digitValue (hexDigit (n mod 10)) = n mod 10" by (rule digitValue_hexDigit) simp
    ultimately show ?thesis using False
      by (subst digitsOf.simps) (simp add: natOfDigits_snoc)
  qed
qed

lemma digitsOf_no_leading_zero: "0 < n \<Longrightarrow> hd (digitsOf n) \<noteq> CHR ''0''"
proof (induction n rule: digitsOf.induct)
  case (1 n)
  show ?case
  proof (cases "n < 10")
    case True
    then show ?thesis using "1.prems" by (subst digitsOf.simps) (simp add: hexDigit_nonzero)
  next
    case False
    then have "0 < n div 10" by simp
    with False have "hd (digitsOf (n div 10)) \<noteq> CHR ''0''" by (rule "1.IH")
    then show ?thesis using False digitsOf_nonempty [of "n div 10"]
      by (subst digitsOf.simps) simp
  qed
qed

lemma digitsOf_length: "1 < length (digitsOf n) \<Longrightarrow> 0 < n"
  by (subst (asm) digitsOf.simps) (auto split: if_splits)

lemma span_digitsOf:
  assumes "\<not> isDigit c"
  shows "takeWhile isDigit (digitsOf n @ c # rest) = digitsOf n"
    and "dropWhile isDigit (digitsOf n @ c # rest) = c # rest"
  using assms digitsOf_digits [of n] by (simp_all add: takeWhile_append2 dropWhile_append2)

lemma parseNumber_numberToString:
  assumes "c = CHR '','' \<or> c = CHR 0x0A"
  shows "parseNumber (numberToString i @ c # rest) = Some (i, c # rest)"
proof -
  have c: "\<not> isDigit c" "c \<notin> set ''.eE''" using assms by (auto simp: isDigit_def)
  have lead: "\<not> (1 < length (digitsOf n) \<and> hd (digitsOf n) = CHR ''0'')" for n
    using digitsOf_length digitsOf_no_leading_zero by blast
  show ?thesis
  proof (cases "i < 0")
    case True
    then have "numberToString i @ c # rest = CHR ''-'' # (digitsOf (nat (- i)) @ c # rest)"
      by (simp add: numberToString_def)
    then show ?thesis using True c lead [of "nat (- i)"] digitsOf_nonempty [of "nat (- i)"]
      by (simp add: parseNumber_def Let_def span_digitsOf [OF c(1)] natOfDigits_digitsOf)
  next
    case False
    have "isDigit (hd (digitsOf (nat i)))"
      using digitsOf_digits [of "nat i"] digitsOf_nonempty [of "nat i"] by (meson hd_in_set)
    then have "hd (digitsOf (nat i)) \<noteq> CHR ''-''" by (auto simp: isDigit_def)
    then have h: "hd (digitsOf (nat i) @ c # rest) \<noteq> CHR ''-''"
      using digitsOf_nonempty [of "nat i"] by simp
    have "numberToString i @ c # rest = digitsOf (nat i) @ c # rest"
      using False by (simp add: numberToString_def)
    then show ?thesis using False c h lead [of "nat i"] digitsOf_nonempty [of "nat i"]
      by (simp add: parseNumber_def Let_def span_digitsOf [OF c(1)] natOfDigits_digitsOf)
  qed
qed

lemma skipWs_notWs: "\<not> isWs c \<Longrightarrow> skipWs (c # s) = c # s"
  by (simp add: skipWs_def)

lemma skipWs_ws: "isWs c \<Longrightarrow> skipWs (c # s) = skipWs s"
  by (simp add: skipWs_def)

lemma quoteJSONString_Cons: "quoteJSONString s @ t = CHR 0x22 # (concat (map quoteChar s) @ CHR 0x22 # t)"
  by (simp add: quoteJSONString_def)

lemma renderValue_head: "\<exists>c t. renderValue v = c # t \<and> \<not> isWs c \<and> (c = CHR 0x22 \<or> c = CHR ''-'' \<or> isDigit c)"
proof (cases v)
  case (JString s)
  then show ?thesis by (simp add: quoteJSONString_def isWs_def)
next
  case (JNumber i)
  obtain d t where dt: "digitsOf (nat \<bar>i\<bar>) = d # t"
    using digitsOf_nonempty [of "nat \<bar>i\<bar>"] by (cases "digitsOf (nat \<bar>i\<bar>)") auto
  then have "isDigit d" using digitsOf_digits [of "nat \<bar>i\<bar>"] by simp
  then have "\<not> isWs d" by (auto simp: isDigit_def isWs_def)
  show ?thesis
  proof (cases "i < 0")
    case True
    then show ?thesis using JNumber by (simp add: numberToString_def isWs_def)
  next
    case False
    then have "nat \<bar>i\<bar> = nat i" by simp
    with dt \<open>isDigit d\<close> \<open>\<not> isWs d\<close> False JNumber show ?thesis by (simp add: numberToString_def)
  qed
qed

lemma parseValue_renderValue:
  assumes "c = CHR '','' \<or> c = CHR 0x0A"
  shows "parseValue (renderValue v @ c # rest) = Some (v, c # rest)"
proof (cases v)
  case (JString s)
  then show ?thesis
    by (simp add: parseValue_def quoteJSONString_Cons parseChars_quoted)
next
  case (JNumber i)
  from renderValue_head [of v] obtain d t where dt: "numberToString i = d # t"
    and d: "d = CHR 0x22 \<or> d = CHR ''-'' \<or> isDigit d" using JNumber by auto
  have "d \<noteq> CHR 0x22"
  proof (cases "i < 0")
    case True
    with dt show ?thesis by (auto simp: numberToString_def)
  next
    case False
    with dt have "d \<in> set (digitsOf (nat i))" by (simp add: numberToString_def)
    then have "isDigit d" using digitsOf_digits by blast
    then show ?thesis by (auto simp: isDigit_def)
  qed
  with d have d': "d = CHR ''-'' \<or> isDigit d" by simp
  have "parseValue (numberToString i @ c # rest)
      = map_option (\<lambda>(v, rest). (JNumber v, rest)) (parseNumber (numberToString i @ c # rest))"
    using d' \<open>d \<noteq> CHR 0x22\<close> unfolding parseValue_def dt by auto
  then show ?thesis using JNumber parseNumber_numberToString [OF assms] by simp
qed

lemma renderMember_body: "renderMember m = ''    '' @ memberBody m"
  by (simp add: renderMember_def memberBody_def)

lemma memberBody_head: "\<exists>t. memberBody m = CHR 0x22 # t"
  by (simp add: memberBody_def quoteJSONString_def)

lemma skipWs_renderMember: "skipWs (renderMember m @ t) = memberBody m @ t"
proof -
  obtain u where u: "memberBody m = CHR 0x22 # u" using memberBody_head by blast
  show ?thesis unfolding renderMember_body u by (simp add: skipWs_def isWs_def)
qed

lemma parseMember_body:
  assumes "c = CHR '','' \<or> c = CHR 0x0A"
  shows "parseMember (memberBody m @ c # rest) = Some (m, skipWs (c # rest))"
proof -
  obtain k v where m: "m = (k, v)" by (cases m)
  obtain d t where dt: "renderValue v = d # t" and d: "\<not> isWs d"
    using renderValue_head [of v] by blast
  have 1: "memberBody m @ c # rest
      = CHR 0x22 # (concat (map quoteChar k) @ CHR 0x22 # (CHR '':'' # CHR '' '' # (renderValue v @ c # rest)))"
    by (simp add: memberBody_def m quoteJSONString_def)
  have 2: "skipWs (CHR '':'' # CHR '' '' # (renderValue v @ c # rest)) = CHR '':'' # CHR '' '' # (renderValue v @ c # rest)"
    by (simp add: skipWs_def isWs_def)
  have 3: "skipWs (CHR '' '' # (renderValue v @ c # rest)) = renderValue v @ c # rest"
    using d by (simp add: skipWs_def isWs_def dt)
  show ?thesis
    unfolding 1 parseMember_def
    by (simp add: parseChars_quoted 2 3 parseValue_renderValue [OF assms] m)
qed

lemma renderMembers_nonempty: "ms \<noteq> [] \<Longrightarrow> \<exists>t. skipWs (renderMembers ms @ u) = CHR 0x22 # t"
proof -
  assume "ms \<noteq> []"
  then obtain m ms' where ms: "ms = m # ms'" by (cases ms) auto
  obtain w where w: "memberBody m = CHR 0x22 # w" using memberBody_head by blast
  show ?thesis
  proof (cases ms')
    case Nil
    then show ?thesis using skipWs_renderMember [of m u] w ms by simp
  next
    case (Cons m' ms'')
    then show ?thesis
      using skipWs_renderMember [of m "[CHR '','', CHR 0x0A] @ renderMembers (m' # ms'') @ u"] w ms
      by simp
  qed
qed

lemma parseMembers_rendered:
  "ms \<noteq> [] \<Longrightarrow>
     parseMembers (skipWs (renderMembers ms @ [CHR 0x0A] @ ''  }'' @ tail)) = Some (ms, tail)"
proof (induction ms rule: renderMembers.induct)
  case 1
  then show ?case by simp
next
  case (2 m)
  have "skipWs (renderMembers [m] @ [CHR 0x0A] @ ''  }'' @ tail)
      = memberBody m @ CHR 0x0A # (''  }'' @ tail)"
    using skipWs_renderMember [of m "[CHR 0x0A] @ ''  }'' @ tail"] by simp
  moreover have "parseMember (memberBody m @ CHR 0x0A # (''  }'' @ tail))
      = Some (m, skipWs (CHR 0x0A # (''  }'' @ tail)))"
    by (rule parseMember_body) simp
  moreover have "skipWs (CHR 0x0A # (''  }'' @ tail)) = CHR ''}'' # tail"
    by (simp add: skipWs_def isWs_def)
  ultimately show ?case by (subst parseMembers.simps) simp
next
  case (3 m m' ms)
  let ?rest = "renderMembers (m' # ms) @ [CHR 0x0A] @ ''  }'' @ tail"
  have "skipWs (renderMembers (m # m' # ms) @ [CHR 0x0A] @ ''  }'' @ tail)
      = memberBody m @ CHR '','' # (CHR 0x0A # ?rest)"
    using skipWs_renderMember [of m "[CHR '','', CHR 0x0A] @ ?rest"] by simp
  moreover have "parseMember (memberBody m @ CHR '','' # (CHR 0x0A # ?rest))
      = Some (m, skipWs (CHR '','' # (CHR 0x0A # ?rest)))"
    by (rule parseMember_body) simp
  moreover have "skipWs (CHR '','' # (CHR 0x0A # ?rest)) = CHR '','' # (CHR 0x0A # ?rest)"
    by (simp add: skipWs_def isWs_def)
  moreover have "skipWs (CHR 0x0A # ?rest) = skipWs ?rest"
    by (simp add: skipWs_def isWs_def)
  moreover have "parseMembers (skipWs ?rest) = Some (m' # ms, tail)"
    by (rule "3.IH") simp
  ultimately show ?case by (subst parseMembers.simps) simp
qed

lemma membersOf_nonempty: "membersOf b \<noteq> []"
  by (simp add: membersOf_def)

lemma parseObject_rendered: "parseObject (renderObject b @ tail) = Some (membersOf b, tail)"
proof -
  define body where "body = renderMembers (membersOf b) @ [CHR 0x0A] @ ''  }'' @ tail"
  obtain t where t: "skipWs body = CHR 0x22 # t"
    unfolding body_def using renderMembers_nonempty [OF membersOf_nonempty] by blast
  have 1: "renderObject b @ tail = CHR ''{'' # (CHR 0x0A # body)"
    by (simp add: renderObject_def body_def)
  have 2: "skipWs (CHR 0x0A # body) = skipWs body" by (simp add: skipWs_def isWs_def)
  have 3: "parseMembers (skipWs body) = Some (membersOf b, tail)"
    unfolding body_def by (rule parseMembers_rendered [OF membersOf_nonempty])
  show ?thesis unfolding 1 using 3 by (simp add: parseObject_def 2 t)
qed

lemma nodeOfMembers_membersOf: "nodeOfMembers (membersOf b) = Some b"
proof (cases b)
  case (fields i n t p u a k)
  show ?thesis
    unfolding fields
    by (cases u; cases a; cases k)
       (simp_all add: nodeOfMembers_def membersOf_def stringField_def numberField_def)
qed

lemma renderObject_head: "\<exists>t. renderObject b @ u = CHR ''{'' # t"
  by (simp add: renderObject_def)

lemma skipWs_renderElements: "bs \<noteq> [] \<Longrightarrow> \<exists>t. skipWs (renderElements bs @ u) = CHR ''{'' # t"
proof -
  assume "bs \<noteq> []"
  then obtain b bs' where bs: "bs = b # bs'" by (cases bs) auto
  show ?thesis
    by (cases bs') (simp_all add: bs skipWs_def isWs_def renderObject_def)
qed

lemma parseElements_rendered:
  "bs \<noteq> [] \<Longrightarrow>
     parseElements (skipWs (renderElements bs @ [CHR 0x0A, CHR '']''] @ tail)) = Some (bs, tail)"
proof (induction bs rule: renderElements.induct)
  case 1
  then show ?case by simp
next
  case (2 b)
  have "skipWs (renderElements [b] @ [CHR 0x0A, CHR '']''] @ tail)
      = renderObject b @ (CHR 0x0A # CHR '']'' # tail)"
    by (simp add: skipWs_def isWs_def renderObject_def)
  moreover have "parseObject (renderObject b @ (CHR 0x0A # CHR '']'' # tail))
      = Some (membersOf b, CHR 0x0A # CHR '']'' # tail)"
    by (rule parseObject_rendered)
  moreover have "skipWs (CHR 0x0A # CHR '']'' # tail) = CHR '']'' # tail"
    by (simp add: skipWs_def isWs_def)
  ultimately show ?case by (subst parseElements.simps) (simp add: nodeOfMembers_membersOf)
next
  case (3 b b' bs)
  let ?rest = "renderElements (b' # bs) @ [CHR 0x0A, CHR '']''] @ tail"
  have "skipWs (renderElements (b # b' # bs) @ [CHR 0x0A, CHR '']''] @ tail)
      = renderObject b @ (CHR '','' # CHR 0x0A # ?rest)"
    by (simp add: skipWs_def isWs_def renderObject_def)
  moreover have "parseObject (renderObject b @ (CHR '','' # CHR 0x0A # ?rest))
      = Some (membersOf b, CHR '','' # CHR 0x0A # ?rest)"
    by (rule parseObject_rendered)
  moreover have "skipWs (CHR '','' # CHR 0x0A # ?rest) = CHR '','' # CHR 0x0A # ?rest"
    by (simp add: skipWs_def isWs_def)
  moreover have "skipWs (CHR 0x0A # ?rest) = skipWs ?rest"
    by (simp add: skipWs_def isWs_def)
  moreover have "parseElements (skipWs ?rest) = Some (b' # bs, tail)"
    by (rule "3.IH") simp
  ultimately show ?case by (subst parseElements.simps) (simp add: nodeOfMembers_membersOf)
qed

lemma JSON_parse_stringify: "JSON_parse (JSON_stringify bs) = Some bs"
proof (cases "bs = []")
  case True
  then show ?thesis by (simp add: JSON_parse_def JSON_stringify_def skipWs_def isWs_def)
next
  case False
  define body where "body = renderElements bs @ [CHR 0x0A, CHR '']''] @ []"
  obtain t where t: "skipWs body = CHR ''{'' # t"
    unfolding body_def using skipWs_renderElements [OF False] by blast
  have 1: "JSON_stringify bs = CHR ''['' # (CHR 0x0A # body)"
    using False by (simp add: JSON_stringify_def body_def)
  have 2: "skipWs (CHR ''['' # (CHR 0x0A # body)) = CHR ''['' # (CHR 0x0A # body)"
    by (simp add: skipWs_def isWs_def)
  have 3: "skipWs (CHR 0x0A # body) = skipWs body" by (simp add: skipWs_def isWs_def)
  have 4: "parseElements (skipWs body) = Some (bs, [])"
    unfolding body_def by (rule parseElements_rendered [OF False])
  have 5: "skipWs [] = []" by (simp add: skipWs_def)
  show ?thesis unfolding 1 using 4 by (simp add: JSON_parse_def 2 3 t 5)
qed

section \<open>Export followed by import\<close>

lemma trim_head: "\<not> isSpace c \<Longrightarrow> \<exists>t. trim (c # s) = c # t"
proof -
  assume c: "\<not> isSpace c"
  have "dropWhile isSpace (rev s @ [c]) = dropWhile isSpace (rev s) @ [c]"
    using c by (simp add: dropWhile_append)
  then show ?thesis using c by (simp add: trim_def)
qed

lemma JSON_stringify_head: "\<exists>t. JSON_stringify bs = CHR ''['' # t"
  by (simp add: JSON_stringify_def)

lemma export_not_doctype: "\<not> startsWith (trim (exportBookmarks bs)) ''<!DOCTYPE''"
proof -
  obtain t where t: "JSON_stringify bs = CHR ''['' # t" using JSON_stringify_head by blast
  have "\<not> isSpace (CHR ''['')" by (simp add: isSpace_def)
  then obtain u where "trim (CHR ''['' # t) = CHR ''['' # u" using trim_head by blast
  then show ?thesis by (simp add: exportBookmarks_def t)
qed

lemma dlStore_text:
  "exportBookmarks dlStore =
     [CHR ''['', CHR 0x0A] @ ''  {'' @ [CHR 0x0A]
     @ ''    '' @ [CHR 0x22] @ ''id'' @ [CHR 0x22] @ '': '' @ [CHR 0x22] @ ''1'' @ [CHR 0x22, CHR '','', CHR 0x0A]
     @ ''    '' @ [CHR 0x22] @ ''name'' @ [CHR 0x22] @ '': '' @ [CHR 0x22] @ ''<DL>'' @ [CHR 0x22, CHR '','', CHR 0x0A]
     @ ''    '' @ [CHR 0x22] @ ''type'' @ [CHR 0x22] @ '': '' @ [CHR 0x22] @ ''bookmark'' @ [CHR 0x22, CHR '','', CHR 0x0A]
     @ ''    '' @ [CHR 0x22] @ ''parent'' @ [CHR 0x22] @ '': '' @ [CHR 0x22, CHR 0x22, CHR '','', CHR 0x0A]
     @ ''    '' @ [CHR 0x22] @ ''url'' @ [CHR 0x22] @ '': '' @ [CHR 0x22] @ ''https://x.test'' @ [CHR 0x22, CHR '','', CHR 0x0A]
     @ ''    '' @ [CHR 0x22] @ ''accessTime'' @ [CHR 0x22] @ '': 0'' @ [CHR '','', CHR 0x0A]
     @ ''    '' @ [CHR 0x22] @ ''order'' @ [CHR 0x22] @ '': 0'' @ [CHR 0x0A]
     @ ''  }'' @ [CHR 0x0A] @ '']''"
  by code_simp

lemma dlStore_detected: "includesStr (exportBookmarks dlStore) ''<DL>''"
  unfolding dlStore_text by simp

text \<open>
  Counterexample to claim C3 as stated. The store holds one link named <DL>. Its exported
  text contains <DL>, so handleFileImport takes the text for bookmark markup, hands it to
  parseChromeBookmarks, finds no bookmarks in it and reports an error: the import of the
  exported file fails and does not yield the store.
\<close>

theorem export_import_counterexample:
  "includesStr (exportBookmarks dlStore) ''<DL>''
   \<and> handleFileImport dlParser fixedId [] ''bookmarks.json'' (exportBookmarks dlStore) True = (ImportFailed, [])"
proof -
  have p: "parseChromeBookmarks fixedId dlDocument = Inr []"
    by (simp add: parseChromeBookmarks_def dlDocument_def)
  show ?thesis
    using dlStore_detected p by (simp add: handleFileImport_def dlParser_def)
qed

text \<open>
  Whatever document the DOMParser builds, the markup branch cannot return a link:
  parseChromeBookmarks throws at the first link with a url and a name, so the sequences it
  returns hold folders only.
\<close>

lemma processDL_only_folders:
  "processDL g dl p st = Inr st' \<Longrightarrow> onlyFolders st \<Longrightarrow> onlyFolders st'"
  "processNodes g nodes p st = Inr st' \<Longrightarrow> onlyFolders st \<Longrightarrow> onlyFolders st'"
proof (induction g dl p st and g nodes p st arbitrary: st' and st' rule: processDL_processNodes.induct)
  case (1 generateId dlElement parentId st)
  then show ?case by simp
next
  case (2 generateId parentId st)
  then show ?case by simp
next
  case (3 g node rest p st)
  let ?skip = "processNodes g rest p st"
  show ?case
  proof (cases "isElement node \<and> tagName node = ''DT''")
    case False
    with "3.prems" have r: "?skip = Inr st'" by (auto split: if_splits)
    from False consider "\<not> isElement node" | "isElement node" "tagName node \<noteq> ''DT''" by blast
    then show ?thesis
    proof cases
      case 1
      then show ?thesis using "3.IH"(1) r "3.prems"(2) by blast
    next
      case 2
      then show ?thesis using "3.IH"(9) r "3.prems"(2) by blast
    qed
  next
    case DT: True
    show ?thesis
    proof (cases "firstElementChild node")
      case None
      with DT "3.prems" have r: "?skip = Inr st'" by simp
      then show ?thesis using "3.IH"(2) DT None "3.prems"(2) by blast
    next
      case (Some firstChild)
      show ?thesis
      proof (cases "tagName firstChild = ''H3''")
        case H3: True
        let ?folderName = "trim (textContent firstChild)"
        show ?thesis
        proof (cases "?folderName = []")
          case True
          with DT Some H3 "3.prems" have r: "?skip = Inr st'" by (simp add: Let_def)
          then show ?thesis using "3.IH"(6) DT Some H3 True "3.prems"(2) by blast
        next
          case nonempty: False
          let ?folderId = "g (snd st)"
          let ?folder = "\<lparr>nid = ?folderId, name = ?folderName, ntype = ''folder'',
                                     parent = p, url = None, accessTime = None, order = None\<rparr>"
          let ?st1 = "(fst st @ [?folder], snd st + 1)"
          have st1: "onlyFolders ?st1" using "3.prems"(2) by (auto simp: onlyFolders_def)
          show ?thesis
          proof (cases "findNestedDL node")
            case None
            with DT Some H3 nonempty "3.prems" have r: "processNodes g rest p ?st1 = Inr st'"
              by (simp add: Let_def)
            show ?thesis
              by (rule "3.IH"(3) [OF _ _ Some H3 refl nonempty refl refl refl None r st1])
                 (use DT in simp_all)
          next
            case nested: (Some nestedDL)
            with DT Some H3 nonempty "3.prems" obtain st2 where
              a: "processDL g nestedDL ?folderId ?st1 = Inr st2" and b: "processNodes g rest p st2 = Inr st'"
              by (auto simp: Let_def split: sum.splits)
            have st2: "onlyFolders st2"
              by (rule "3.IH"(4) [OF _ _ Some H3 refl nonempty refl refl refl nested a st1])
                 (use DT in simp_all)
            show ?thesis
              by (rule "3.IH"(5) [OF _ _ Some H3 refl nonempty refl refl refl nested a b st2])
                 (use DT in simp_all)
          qed
        qed
      next
        case notH3: False
        show ?thesis
        proof (cases "tagName firstChild = ''A''")
          case A: True
          with DT Some notH3 "3.prems" have r: "?skip = Inr st'"
            by (auto simp: Let_def split: if_splits)
          have "\<not> (getAttribute firstChild ''HREF'' \<noteq> None \<and> getAttribute firstChild ''HREF'' \<noteq> Some []
                    \<and> trim (textContent firstChild) \<noteq> [])"
            using DT Some notH3 A "3.prems"(1) by (auto simp: Let_def split: if_splits)
          then show ?thesis using "3.IH"(7) DT Some notH3 A r "3.prems"(2) by blast
        next
          case False
          with DT Some notH3 "3.prems" have r: "?skip = Inr st'" by simp
          then show ?thesis using "3.IH"(8) DT Some notH3 False "3.prems"(2) by blast
        qed
      qed
    qed
  qed
qed

lemma parseChromeBookmarks_only_folders:
  "parseChromeBookmarks g doc = Inr bs \<Longrightarrow> \<forall>b \<in> set bs. ntype b = ''folder''"
proof -
  assume a: "parseChromeBookmarks g doc = Inr bs"
  show ?thesis
  proof (cases "querySelectorIn ''DL'' [doc]")
    case None
    with a show ?thesis by (simp add: parseChromeBookmarks_def)
  next
    case (Some mainDL)
    with a obtain st where st: "processDL g mainDL [] ([], 1) = Inr st" and bs: "bs = fst st"
      by (auto simp: parseChromeBookmarks_def split: sum.splits)
    have "onlyFolders st" by (rule processDL_only_folders(1) [OF st]) (simp add: onlyFolders_def)
    with bs show ?thesis by (simp add: onlyFolders_def)
  qed
qed

lemma export_import_dlStore_any_parser:
  "handleFileImport domParser g old fileName (exportBookmarks dlStore) c \<noteq> (Imported, dlStore)"
proof
  assume a: "handleFileImport domParser g old fileName (exportBookmarks dlStore) c = (Imported, dlStore)"
  then obtain bs where "parseChromeBookmarks g (domParser (exportBookmarks dlStore)) = Inr bs"
    and "bs = dlStore"
    using dlStore_detected
    by (auto simp: handleFileImport_def Let_def split: sum.splits if_splits)
  then have "\<forall>b \<in> set dlStore. ntype b = ''folder''"
    using parseChromeBookmarks_only_folders by blast
  then show False by (simp add: dlStore_def)
qed

text \<open>
  Claim C3, amended. For every store whose exported text contains neither <DT> nor <DL>,
  read back from a file whose name does not end in .html (the export is named
  bookmarks.json), with the replacement confirmed when the current store is not empty:
  importing the exported text replaces the store by exactly the exported store, the same
  records with the same ids, names, urls, parents and orders, in the same sequence.
\<close>

theorem export_import_roundtrip:
  assumes "\<not> endsWith fileName ''.html''"
    and "\<not> includesStr (exportBookmarks bs) ''<DT>''"
    and "\<not> includesStr (exportBookmarks bs) ''<DL>''"
    and "old = [] \<or> confirmAnswer"
  shows "handleFileImport domParser generateId old fileName (exportBookmarks bs) confirmAnswer
           = (Imported, bs)"
proof -
  have "JSON_parse (exportBookmarks bs) = Some bs"
    unfolding exportBookmarks_def by (rule JSON_parse_stringify)
  then show ?thesis
    using assms export_not_doctype [of bs] by (auto simp: handleFileImport_def)
qed

lemma work_text_clean:
  "\<not> includesStr (exportBookmarks workStore) ''<DT>''
   \<and> \<not> includesStr (exportBookmarks workStore) ''<DL>''"
  by code_simp

theorem export_import_roundtrip_witness:
  "\<not> endsWith ''bookmarks.json'' ''.html''
   \<and> \<not> includesStr (exportBookmarks workStore) ''<DT>''
   \<and> \<not> includesStr (exportBookmarks workStore) ''<DL>''
   \<and> handleFileImport dlParser fixedId dlStore ''bookmarks.json'' (exportBookmarks workStore) True
       = (Imported, workStore)"
proof -
  have 1: "\<not> endsWith ''bookmarks.json'' ''.html''" by (simp add: endsWith_def)
  from export_import_roundtrip [OF 1, of workStore dlStore True dlParser fixedId] work_text_clean 1
  show ?thesis by simp
qed

end
